theory Spec2Isabelle
  imports Main "HOL-Library.Multiset"
begin

section \<open>Data model of App.tsx\<close>

text \<open>
  \<^verbatim>\<open>interface NameLink { source: string; target: string; }\<close>,
  \<^verbatim>\<open>interface Person { name: string; gender: string; }\<close> and
  \<^verbatim>\<open>interface Node { id: string; gender: string; group: number; }\<close>.
\<close>

record NameLink =
  source :: string
  target :: string

record Person =
  name :: string
  gender :: string

record Node =
  node_id :: string
  node_gender :: string
  node_group :: nat

subsection \<open>A JavaScript \<open>Set\<close>: distinct elements in insertion order\<close>

text \<open>
  A \<^verbatim>\<open>Set<string>\<close> iterates in insertion order, \<^verbatim>\<open>add\<close> of a member changes
  nothing, \<^verbatim>\<open>delete\<close> removes the member, and \<^verbatim>\<open>const [x] = s\<close> reads the first
  element. The model is the list of the members in insertion order; \<^verbatim>\<open>size\<close> is its
  length and \<^verbatim>\<open>has\<close> is membership.
\<close>

definition set_add :: "'a \<Rightarrow> 'a list \<Rightarrow> 'a list" where
  "set_add x s = (if x \<in> set s then s else s @ [x])"

definition set_delete :: "'a \<Rightarrow> 'a list \<Rightarrow> 'a list" where
  "set_delete x s = filter (\<lambda>y. y \<noteq> x) s"

definition new_Set :: "'a list \<Rightarrow> 'a list" where
  "new_Set xs = foldl (\<lambda>s x. set_add x s) [] xs"

section \<open>Connectivity closure: \<open>findConnectedNames\<close>\<close>

text \<open>The body of \<^verbatim>\<open>linkPairs.forEach\<close> for one link, on the set \<open>connected\<close>.\<close>

definition visit_link :: "string list \<Rightarrow> NameLink \<Rightarrow> string list" where
  "visit_link connected link =
     (let c1 = (if source link \<in> set connected then set_add (target link) connected
                else connected)
      in (if target link \<in> set c1 then set_add (source link) c1 else c1))"

definition scan_links :: "NameLink list \<Rightarrow> string list \<Rightarrow> string list" where
  "scan_links linkPairs connected = foldl visit_link connected linkPairs"

text \<open>The link endpoints: the only identifiers a scan can add.\<close>

definition endpoints :: "NameLink list \<Rightarrow> string set" where
  "endpoints linkPairs = source ` set linkPairs \<union> target ` set linkPairs"

lemma visit_link_grows:
  "\<exists>ys. visit_link c l = c @ ys \<and> set ys \<subseteq> {source l, target l} - set c"
  by (auto simp: visit_link_def set_add_def Let_def)

lemma scan_links_grows:
  "\<exists>ys. scan_links ls c = c @ ys \<and> set ys \<subseteq> endpoints ls - set c"
proof (induction ls arbitrary: c)
  case Nil
  then show ?case by (simp add: scan_links_def)
next
  case (Cons l ls)
  obtain ys where ys: "visit_link c l = c @ ys" "set ys \<subseteq> {source l, target l} - set c"
    using visit_link_grows by blast
  obtain zs where zs: "scan_links ls (c @ ys) = (c @ ys) @ zs"
    "set zs \<subseteq> endpoints ls - set (c @ ys)"
    using Cons.IH by blast
  have "scan_links (l # ls) c = c @ (ys @ zs)"
    using ys zs by (simp add: scan_links_def)
  moreover have "set (ys @ zs) \<subseteq> endpoints (l # ls) - set c"
    using ys zs by (auto simp: endpoints_def)
  ultimately show ?case by blast
qed

lemma scan_links_measure:
  assumes "length (scan_links ls c) \<noteq> length c"
  shows "card (endpoints ls - set (scan_links ls c)) < card (endpoints ls - set c)"
proof -
  obtain ys where ys: "scan_links ls c = c @ ys" "set ys \<subseteq> endpoints ls - set c"
    using scan_links_grows by blast
  from assms ys obtain y where y: "y \<in> set ys" by (cases ys) auto
  have fin: "finite (endpoints ls - set c)" by (simp add: endpoints_def)
  have "endpoints ls - set (scan_links ls c) \<subset> endpoints ls - set c"
    using ys y by auto
  then show ?thesis using fin by (rule psubset_card_mono[rotated])
qed

text \<open>
  The \<^verbatim>\<open>do { size = connected.size; ... } while (size !== connected.size)\<close> loop:
  one full scan, repeated while the scan has added a member.
\<close>

function closure_loop :: "NameLink list \<Rightarrow> string list \<Rightarrow> string list" where
  "closure_loop linkPairs connected =
     (let connected' = scan_links linkPairs connected
      in if length connected \<noteq> length connected' then closure_loop linkPairs connected'
         else connected')"
  by pat_completeness auto
termination
  by (relation "measure (\<lambda>(ls, c). card (endpoints ls - set c))")
     (auto intro: scan_links_measure)

declare closure_loop.simps [simp del]

definition findConnectedNames :: "string \<Rightarrow> NameLink list \<Rightarrow> string list" where
  "findConnectedNames nm linkPairs = closure_loop linkPairs [nm]"


section \<open>Group merger: \<open>countConnectionsBetweenGroups\<close> and \<open>mergeGroups\<close>\<close>

definition countConnectionsBetweenGroups ::
  "string list \<Rightarrow> string list \<Rightarrow> NameLink list \<Rightarrow> nat" where
  "countConnectionsBetweenGroups group1 group2 linkPairs =
     foldl (\<lambda>connections link.
        if (source link \<in> set group1 \<and> target link \<in> set group2) \<or>
           (target link \<in> set group1 \<and> source link \<in> set group2)
        then connections + 1 else connections) 0 linkPairs"

text \<open>
  The search state \<open>(bestMergeScore, bestPair)\<close>. The source starts it at
  \<^verbatim>\<open>-1\<close> and \<^verbatim>\<open>[-1, -1]\<close>; the pair \<^verbatim>\<open>[-1, -1]\<close>, which no index pair equals,
  is \<open>None\<close> here, so the test \<^verbatim>\<open>bestPair[0] === -1\<close> is the test for \<open>None\<close>.
\<close>

type_synonym best = "int \<times> (nat \<times> nat) option"

text \<open>The body of the inner \<^verbatim>\<open>for (let j = i + 1; ...)\<close> loop.\<close>

definition consider_pair ::
  "string list list \<Rightarrow> NameLink list \<Rightarrow> int \<Rightarrow> nat \<Rightarrow> best \<Rightarrow> nat \<Rightarrow> best" where
  "consider_pair groups linkPairs maxSize i b j =
     (let combinedSize = int (length (groups ! i) + length (groups ! j))
      in if combinedSize \<le> maxSize then
           (let connectionCount = countConnectionsBetweenGroups (groups ! i) (groups ! j) linkPairs;
                score = int connectionCount
            in if score > fst b then (score, Some (i, j)) else b)
         else b)"

definition find_best_pair :: "string list list \<Rightarrow> NameLink list \<Rightarrow> int \<Rightarrow> best" where
  "find_best_pair groups linkPairs maxSize =
     foldl (\<lambda>b i. foldl (consider_pair groups linkPairs maxSize i) b [i + 1 ..< length groups])
       (- 1, None) [0 ..< length groups]"

text \<open>\<^verbatim>\<open>xs.splice(k, 1)\<close>: the element at index \<open>k\<close> is removed.\<close>

definition splice1 :: "nat \<Rightarrow> 'a list \<Rightarrow> 'a list" where
  "splice1 k xs = take k xs @ drop (Suc k) xs"

definition merge_pair :: "string list list \<Rightarrow> nat \<Rightarrow> nat \<Rightarrow> string list list" where
  "merge_pair groups i j =
     (let mergedGroup = groups ! i @ groups ! j
      in splice1 i (splice1 j groups) @ [mergedGroup])"

lemma consider_pair_bounds:
  assumes "snd (consider_pair groups ls m i b j) = Some (p, q)" "i < j" "j < n"
    and "snd b = Some (p, q) \<longrightarrow> p < q \<and> q < n"
  shows "p < q \<and> q < n"
  using assms by (auto simp: consider_pair_def Let_def split: if_splits)

lemma inner_scan_bounds:
  assumes "snd (foldl (consider_pair groups ls m i) b js) = Some (p, q)"
    and "\<forall>j \<in> set js. i < j \<and> j < n"
    and "\<forall>p q. snd b = Some (p, q) \<longrightarrow> p < q \<and> q < n"
  shows "p < q \<and> q < n"
  using assms
proof (induction js arbitrary: b)
  case Nil
  then show ?case by simp
next
  case (Cons j js)
  have "\<forall>p q. snd (consider_pair groups ls m i b j) = Some (p, q) \<longrightarrow> p < q \<and> q < n"
    using Cons.prems(2,3) consider_pair_bounds[of groups ls m i b j _ _ n] by auto
  then show ?case using Cons.IH[of "consider_pair groups ls m i b j"] Cons.prems by simp
qed

lemma outer_scan_bounds:
  assumes "snd (foldl (\<lambda>b i. foldl (consider_pair groups ls m i) b [i + 1 ..< n]) b is) = Some (p, q)"
    and "\<forall>p q. snd b = Some (p, q) \<longrightarrow> p < q \<and> q < n"
  shows "p < q \<and> q < n"
  using assms
proof (induction "is" arbitrary: b)
  case Nil
  then show ?case by simp
next
  case (Cons i "is")
  let ?b = "foldl (consider_pair groups ls m i) b [i + 1 ..< n]"
  have "\<forall>p q. snd ?b = Some (p, q) \<longrightarrow> p < q \<and> q < n"
    using inner_scan_bounds[of groups ls m i b "[i + 1 ..< n]" _ _ n] Cons.prems(2) by auto
  then show ?case using Cons.IH[of ?b] Cons.prems(1) by simp
qed

lemma find_best_pair_bounds:
  assumes "snd (find_best_pair groups ls m) = Some (p, q)"
  shows "p < q \<and> q < length groups"
  using assms outer_scan_bounds[of groups ls m "length groups" "(- 1, None)" "[0 ..< length groups]" p q]
  by (simp add: find_best_pair_def)

lemma length_merge_pair:
  "i < j \<Longrightarrow> j < length groups \<Longrightarrow> Suc (length (merge_pair groups i j)) = length groups"
  by (auto simp: merge_pair_def splice1_def Let_def)

text \<open>
  One iteration of the \<^verbatim>\<open>while\<close> loop of \<open>mergeGroups\<close>: the search for the
  best pair, then either \<^verbatim>\<open>break\<close> (\<open>None\<close>) or the list after the merge.
\<close>

definition merge_iteration ::
  "string list list \<Rightarrow> NameLink list \<Rightarrow> int \<Rightarrow> string list list option" where
  "merge_iteration groups linkPairs maxSize =
     (case snd (find_best_pair groups linkPairs maxSize) of
        None \<Rightarrow> None
      | Some (i, j) \<Rightarrow> Some (merge_pair groups i j))"

lemma length_merge_iteration:
  assumes "merge_iteration groups ls m = Some groups'"
  shows "Suc (length groups') = length groups"
proof -
  from assms obtain i j where ij: "snd (find_best_pair groups ls m) = Some (i, j)"
    and g: "groups' = merge_pair groups i j"
    by (auto simp: merge_iteration_def split: option.splits)
  show ?thesis
    using find_best_pair_bounds[OF ij] length_merge_pair[of i j groups] g by simp
qed

text \<open>The \<^verbatim>\<open>while (groups.length > targetGroupCount)\<close> loop.\<close>

function merge_loop ::
  "string list list \<Rightarrow> NameLink list \<Rightarrow> int \<Rightarrow> int \<Rightarrow> string list list" where
  "merge_loop groups linkPairs maxSize targetGroupCount =
     (if int (length groups) > targetGroupCount then
        (case merge_iteration groups linkPairs maxSize of
           None \<Rightarrow> groups
         | Some groups' \<Rightarrow> merge_loop groups' linkPairs maxSize targetGroupCount)
      else groups)"
  by pat_completeness auto
termination
  by (relation "measure (\<lambda>(groups, ls, m, t). length groups)")
     (auto dest: length_merge_iteration)

declare merge_loop.simps [simp del]

definition mergeGroups ::
  "string list list \<Rightarrow> NameLink list \<Rightarrow> int \<Rightarrow> int \<Rightarrow> string list list" where
  "mergeGroups groups linkPairs maxSize targetGroupCount =
     (if int (length groups) \<le> targetGroupCount then groups
      else merge_loop groups linkPairs maxSize targetGroupCount)"


section \<open>Group builder: \<open>createConnectedGroups\<close>\<close>

text \<open>
  The padding loop
  \<^verbatim>\<open>while (currentGroup.length < minSize && unassignedNames.size > 0)\<close>, which moves
  the first unassigned name into the group. It returns the group and the unassigned set.
\<close>

lemma length_set_delete:
  "x \<in> set s \<Longrightarrow> length (set_delete x s) < length s"
  unfolding set_delete_def
  by (induction s) (auto simp: less_Suc_eq_le intro: le_less_trans[OF length_filter_le])

lemma length_set_delete_le: "length (set_delete x s) \<le> length s"
  by (simp add: set_delete_def)

function pad_group :: "string list \<Rightarrow> string list \<Rightarrow> int \<Rightarrow> string list \<times> string list" where
  "pad_group currentGroup unassignedNames minSize =
     (if int (length currentGroup) < minSize \<and> length unassignedNames > 0 then
        (let nextName = hd unassignedNames
         in pad_group (currentGroup @ [nextName]) (set_delete nextName unassignedNames) minSize)
      else (currentGroup, unassignedNames))"
  by pat_completeness auto
termination
  by (relation "measure (\<lambda>(g, u, m). length u)") (auto intro: length_set_delete)

declare pad_group.simps [simp del]

text \<open>
  The set \<open>connectedToGroup\<close>: for each name of the group in order, each member of its
  closure in order is added when it is still unassigned.
\<close>

definition connected_to_group ::
  "string list \<Rightarrow> string list \<Rightarrow> NameLink list \<Rightarrow> string list" where
  "connected_to_group currentGroup unassignedNames linkPairs =
     foldl (\<lambda>connectedToGroup nm.
        foldl (\<lambda>acc c. if c \<in> set unassignedNames then set_add c acc else acc)
          connectedToGroup (findConnectedNames nm linkPairs))
       [] currentGroup"

text \<open>
  The start of an iteration: an empty group in progress is seeded with the first
  unassigned name.
\<close>

definition start_group :: "string list \<Rightarrow> string list \<Rightarrow> string list \<times> string list" where
  "start_group currentGroup unassignedNames =
     (if length currentGroup = 0 then
        (let firstUnassigned = hd unassignedNames
         in (currentGroup @ [firstUnassigned], set_delete firstUnassigned unassignedNames))
      else (currentGroup, unassignedNames))"

lemma pad_group_length_le: "length (snd (pad_group g u m)) \<le> length u"
proof (induction g u m rule: pad_group.induct)
  case (1 g u m)
  show ?case
  proof (cases "int (length g) < m \<and> length u > 0")
    case True
    have eq: "pad_group g u m = pad_group (g @ [hd u]) (set_delete (hd u) u) m"
      using True by (subst pad_group.simps) (simp add: Let_def)
    have "length (snd (pad_group (g @ [hd u]) (set_delete (hd u) u) m))
          \<le> length (set_delete (hd u) u)"
      using "1.IH"[OF True refl] .
    also have "\<dots> \<le> length u" by (rule length_set_delete_le)
    finally show ?thesis by (simp only: eq)
  next
    case False
    have "pad_group g u m = (g, u)"
      using False by (subst pad_group.simps) auto
    then show ?thesis by simp
  qed
qed

lemma collect_unassigned_subset:
  "set acc \<subseteq> set u \<Longrightarrow>
   set (foldl (\<lambda>acc c. if c \<in> set u then set_add c acc else acc) acc cs) \<subseteq> set u"
  by (induction cs arbitrary: acc) (auto simp: set_add_def)

lemma connected_to_group_aux:
  "set acc \<subseteq> set u \<Longrightarrow>
   set (foldl (\<lambda>connectedToGroup nm.
        foldl (\<lambda>acc c. if c \<in> set u then set_add c acc else acc)
          connectedToGroup (findConnectedNames nm ls)) acc g) \<subseteq> set u"
proof (induction g arbitrary: acc)
  case Nil
  then show ?case by simp
next
  case (Cons nm g)
  show ?case
    using Cons.IH[OF collect_unassigned_subset[OF Cons.prems, of "findConnectedNames nm ls"]]
    by simp
qed

lemma connected_to_group_subset: "set (connected_to_group g u ls) \<subseteq> set u"
  unfolding connected_to_group_def by (rule connected_to_group_aux) simp

lemma start_group_length:
  "u \<noteq> [] \<Longrightarrow> start_group g u = (g1, u1) \<Longrightarrow>
   2 * length u1 + 1 < 2 * length u + (if g = [] then 0 else 1) + 2 \<and> g1 \<noteq> [] \<and>
   (g = [] \<longrightarrow> length u1 < length u) \<and> length u1 \<le> length u"
  using length_set_delete[of "hd u" u]
  by (auto simp: start_group_def Let_def split: if_splits)

text \<open>
  The main \<^verbatim>\<open>while (unassignedNames.size > 0)\<close> loop on the state
  \<open>(unassignedNames, groups, currentGroup)\<close>; it returns \<open>groups\<close> and
  \<open>currentGroup\<close> as they are when the unassigned set is empty.
\<close>

function build_loop ::
  "NameLink list \<Rightarrow> int \<Rightarrow> int \<Rightarrow> string list \<Rightarrow> string list list \<Rightarrow> string list
   \<Rightarrow> string list list \<times> string list \<times> string list" where
  "build_loop linkPairs minSize maxSize unassignedNames groups currentGroup =
     (if length unassignedNames > 0 then
        (case start_group currentGroup unassignedNames of
           (currentGroup1, unassigned1) \<Rightarrow>
             (let connectedToGroup = connected_to_group currentGroup1 unassigned1 linkPairs
              in if length connectedToGroup = 0 \<or> int (length currentGroup1) \<ge> maxSize then
                   (case pad_group currentGroup1 unassigned1 minSize of
                      (currentGroup2, unassigned2) \<Rightarrow>
                        build_loop linkPairs minSize maxSize unassigned2
                          (groups @ [currentGroup2]) [])
                 else
                   (let nextName = hd connectedToGroup
                    in build_loop linkPairs minSize maxSize (set_delete nextName unassigned1)
                         groups (currentGroup1 @ [nextName]))))
      else (groups, currentGroup, unassignedNames))"
  by pat_completeness auto
termination
proof (relation "measure (\<lambda>(ls, mn, mx, u, gs, g). 2 * length u + (if g = [] then 0 else 1))",
    goal_cases)
  case 1
  show ?case by simp
next
  case (2 ls mn mx u gs g g1 u1 ctg g2 u2)
  have u: "u \<noteq> []" using 2(1) by simp
  have sg: "start_group g u = (g1, u1)" using 2(2) by simp
  have "length u2 \<le> length u1"
    using pad_group_length_le[of g1 u1 mn] 2(5) by (metis snd_conv)
  then show ?case using start_group_length[OF u sg] by (auto split: if_splits)
next
  case (3 ls mn mx u gs g g1 u1 ctg nextName)
  have u: "u \<noteq> []" using 3(1) by simp
  have sg: "start_group g u = (g1, u1)" using 3(2) by simp
  have "ctg \<noteq> []" using 3(4) by auto
  then have "nextName \<in> set u1"
    using connected_to_group_subset[of g1 u1 ls] 3(3,5) by (metis hd_in_set subsetD)
  then have "length (set_delete nextName u1) < length u1" by (rule length_set_delete)
  then show ?case using start_group_length[OF u sg] by (auto split: if_splits)
qed

declare build_loop.simps [simp del]

text \<open>
  \<open>createConnectedGroups\<close>: the loop from the set of the unique names, then the last
  group in progress, padded and appended when it is not empty. The parameter
  \<open>peopleMap\<close> is not read by the source.
\<close>

definition createConnectedGroups ::
  "string list \<Rightarrow> (string \<rightharpoonup> Person) \<Rightarrow> NameLink list \<Rightarrow> int \<Rightarrow> int \<Rightarrow> string list list" where
  "createConnectedGroups uniqueNames peopleMap linkPairs minSize maxSize =
     (case build_loop linkPairs minSize maxSize (new_Set uniqueNames) [] [] of
        (groups, currentGroup, unassignedNames) \<Rightarrow>
          (if length currentGroup > 0 then
             (case pad_group currentGroup unassignedNames minSize of
                (currentGroup', unassignedNames') \<Rightarrow> groups @ [currentGroup'])
           else groups))"


section \<open>Reading the input: \<open>processInput\<close>\<close>

text \<open>
  The component state (the \<^verbatim>\<open>useState\<close> hooks). The three sizes are JavaScript numbers
  that the input handlers set from \<^verbatim>\<open>parseInt\<close>; they are integers here.
\<close>

record AppState =
  names :: string
  links :: string
  minGroupSize :: int
  maxGroupSize :: int
  maxGroups :: int
  nodes :: "Node list"
  connections :: "NameLink list"
  error :: string

text \<open>Every \<^verbatim>\<open>throw\<close> of the \<^verbatim>\<open>try\<close> block, and the message the \<^verbatim>\<open>catch\<close> stores.\<close>

datatype input_error =
    InvalidNameFormat
  | InvalidGender string
  | MinGroupSizeNotPositive
  | MaxGroupSizeBelowMin
  | MaxGroupsNotPositive
  | InvalidLinkFormat
  | LinkNameNotInList string string
  | GenderOfUndefined

fun error_message :: "input_error \<Rightarrow> string" where
  "error_message InvalidNameFormat = ''Invalid name format''"
| "error_message (InvalidGender nm) = ''Invalid gender for '' @ nm @ ''. Use M or F.''"
| "error_message MinGroupSizeNotPositive = ''Minimum group size must be greater than 0''"
| "error_message MaxGroupSizeBelowMin =
     ''Maximum group size must be greater than or equal to minimum group size''"
| "error_message MaxGroupsNotPositive = ''Maximum number of groups must be greater than 0''"
| "error_message InvalidLinkFormat = ''Invalid link format''"
| "error_message (LinkNameNotInList s t) =
     ''Link contains name not in names list: '' @ s @ '' or '' @ t"
| "error_message GenderOfUndefined =
     ''Cannot read properties of undefined (reading '' @ [CHR 0x27] @ ''gender'' @ [CHR 0x27] @ '')''"

text \<open>
  Strings are lists of code units below 256. \<^verbatim>\<open>trim\<close> removes white space and line
  terminators at both ends: in this range the code units 9 to 13, 32 and 160.
\<close>

definition is_space :: "char \<Rightarrow> bool" where
  "is_space c = ((of_char c :: nat) \<in> set [9, 10, 11, 12, 13, 32, 160])"

definition trim :: "string \<Rightarrow> string" where
  "trim s = rev (dropWhile is_space (rev (dropWhile is_space s)))"

text \<open>\<^verbatim>\<open>s.split(sep)\<close> for a separator of one character: never the empty list.\<close>

fun split_on :: "char \<Rightarrow> string \<Rightarrow> string list" where
  "split_on sep [] = [[]]"
| "split_on sep (c # cs) =
     (if c = sep then [] # split_on sep cs
      else (case split_on sep cs of
              [] \<Rightarrow> [[c]]
            | w # ws \<Rightarrow> (c # w) # ws))"

text \<open>
  \<^verbatim>\<open>toUpperCase\<close> on the letters a to z; the source applies it only to one of
  \<^verbatim>\<open>'M', 'F', 'm', 'f'\<close>.
\<close>

definition toUpperCase :: "string \<Rightarrow> string" where
  "toUpperCase s =
     map (\<lambda>c. let n = (of_char c :: nat)
               in if 97 \<le> n \<and> n \<le> 122 then char_of (n - 32) else c) s"

text \<open>\<^verbatim>\<open>text.split('\n').filter(line => line.trim())\<close>: the lines that are not blank.\<close>

definition nonblank_lines :: "string \<Rightarrow> string list" where
  "nonblank_lines txt = filter (\<lambda>line. trim line \<noteq> []) (split_on (CHR 0x0A) txt)"

text \<open>
  The callback of the \<^verbatim>\<open>map\<close> over the name lines, up to the \<open>person\<close> it builds.
  \<^verbatim>\<open>const [name, gender = ''] = ...\<close> takes the first two fields, the second one
  defaulting to the empty string when the line has no comma.
\<close>

definition parse_person :: "string \<Rightarrow> input_error + Person" where
  "parse_person line =
     (let parts = map trim (split_on CHR '','' line);
          nm = hd parts;
          g = (if length parts > 1 then parts ! 1 else [])
      in if nm = [] then Inl InvalidNameFormat
         else if g \<notin> set [''M'', ''F'', ''m'', ''f''] then Inl (InvalidGender nm)
         else Inr \<lparr>name = nm, gender = toUpperCase g\<rparr>)"

text \<open>
  The \<^verbatim>\<open>map\<close> over the name lines: each person is stored in \<open>peopleMap\<close> under its
  name (\<^verbatim>\<open>peopleMap.set\<close> overwrites), the names are returned in line order, and the
  first line that throws ends the run.
\<close>

fun process_names ::
  "string list \<Rightarrow> (string \<rightharpoonup> Person) \<Rightarrow> input_error + ((string \<rightharpoonup> Person) \<times> string list)" where
  "process_names [] peopleMap = Inr (peopleMap, [])"
| "process_names (line # rest) peopleMap =
     (case parse_person line of
        Inl e \<Rightarrow> Inl e
      | Inr person \<Rightarrow>
          (case process_names rest (peopleMap(name person \<mapsto> person)) of
             Inl e \<Rightarrow> Inl e
           | Inr (peopleMap', nameList) \<Rightarrow> Inr (peopleMap', name person # nameList)))"

text \<open>
  The callback of the \<^verbatim>\<open>map\<close> over the link lines. \<^verbatim>\<open>const [source, target] = ...\<close>
  leaves \<open>target\<close> undefined (\<open>None\<close>) when the line has no comma.
\<close>

definition parse_link :: "string list \<Rightarrow> string \<Rightarrow> input_error + NameLink" where
  "parse_link uniqueNames link =
     (let parts = map trim (split_on CHR '','' link);
          src = hd parts;
          tgt = (if length parts > 1 then Some (parts ! 1) else None)
      in case tgt of
           None \<Rightarrow> Inl InvalidLinkFormat
         | Some t \<Rightarrow>
             if src = [] \<or> t = [] then Inl InvalidLinkFormat
             else if src \<notin> set uniqueNames \<or> t \<notin> set uniqueNames
               then Inl (LinkNameNotInList src t)
             else Inr \<lparr>source = src, target = t\<rparr>)"

fun process_links :: "string list \<Rightarrow> string list \<Rightarrow> input_error + NameLink list" where
  "process_links uniqueNames [] = Inr []"
| "process_links uniqueNames (link # rest) =
     (case parse_link uniqueNames link of
        Inl e \<Rightarrow> Inl e
      | Inr l \<Rightarrow>
          (case process_links uniqueNames rest of
             Inl e \<Rightarrow> Inl e
           | Inr linkPairs \<Rightarrow> Inr (l # linkPairs)))"

text \<open>
  \<^verbatim>\<open>groups.flatMap((group, groupIndex) => group.map(name => ...))\<close>. Reading
  \<^verbatim>\<open>peopleMap.get(name)!.gender\<close> for a name the map does not hold throws.
\<close>

fun group_nodes :: "(string \<rightharpoonup> Person) \<Rightarrow> nat \<Rightarrow> string list \<Rightarrow> input_error + Node list" where
  "group_nodes peopleMap groupIndex [] = Inr []"
| "group_nodes peopleMap groupIndex (nm # rest) =
     (case peopleMap nm of
        None \<Rightarrow> Inl GenderOfUndefined
      | Some person \<Rightarrow>
          (case group_nodes peopleMap groupIndex rest of
             Inl e \<Rightarrow> Inl e
           | Inr ns \<Rightarrow>
               Inr (\<lparr>node_id = nm, node_gender = gender person, node_group = groupIndex\<rparr> # ns)))"

fun make_nodes ::
  "(string \<rightharpoonup> Person) \<Rightarrow> nat \<Rightarrow> string list list \<Rightarrow> input_error + Node list" where
  "make_nodes peopleMap groupIndex [] = Inr []"
| "make_nodes peopleMap groupIndex (g # gs) =
     (case group_nodes peopleMap groupIndex g of
        Inl e \<Rightarrow> Inl e
      | Inr ns \<Rightarrow>
          (case make_nodes peopleMap (Suc groupIndex) gs of
             Inl e \<Rightarrow> Inl e
           | Inr ms \<Rightarrow> Inr (ns @ ms)))"

text \<open>The two grouping calls of \<open>processInput\<close>, in their order.\<close>

definition grouping ::
  "string list \<Rightarrow> (string \<rightharpoonup> Person) \<Rightarrow> NameLink list \<Rightarrow> int \<Rightarrow> int \<Rightarrow> int
   \<Rightarrow> string list list" where
  "grouping uniqueNames peopleMap linkPairs minSize maxSize targetGroupCount =
     (let groups = createConnectedGroups uniqueNames peopleMap linkPairs minSize maxSize
      in mergeGroups groups linkPairs maxSize targetGroupCount)"

text \<open>
  The \<^verbatim>\<open>try\<close> block of \<open>processInput\<close>: either the error thrown, or the nodes
  and links that the three \<^verbatim>\<open>set...\<close> calls at its end store.
\<close>

definition processInput_try :: "AppState \<Rightarrow> input_error + (Node list \<times> NameLink list)" where
  "processInput_try s =
     (case process_names (nonblank_lines (names s)) Map.empty of
        Inl e \<Rightarrow> Inl e
      | Inr (peopleMap, nameList) \<Rightarrow>
          (let uniqueNames = new_Set nameList
           in if minGroupSize s \<le> 0 then Inl MinGroupSizeNotPositive
              else if maxGroupSize s < minGroupSize s then Inl MaxGroupSizeBelowMin
              else if maxGroups s \<le> 0 then Inl MaxGroupsNotPositive
              else (case process_links uniqueNames (nonblank_lines (links s)) of
                      Inl e \<Rightarrow> Inl e
                    | Inr linkPairs \<Rightarrow>
                        (let groups = grouping uniqueNames peopleMap linkPairs
                                        (minGroupSize s) (maxGroupSize s) (maxGroups s)
                         in case make_nodes peopleMap 0 groups of
                              Inl e \<Rightarrow> Inl e
                            | Inr ns \<Rightarrow> Inr (ns, linkPairs)))))"

definition processInput :: "AppState \<Rightarrow> AppState" where
  "processInput s =
     (case processInput_try s of
        Inl e \<Rightarrow> s\<lparr>error := error_message e\<rparr>
      | Inr (ns, linkPairs) \<Rightarrow> s\<lparr>nodes := ns, connections := linkPairs, error := []\<rparr>)"

section \<open>Analytics\<close>

text \<open>
  \<open>groupedNodes\<close>: the \<^verbatim>\<open>reduce\<close> that collects the nodes of each group index, in
  node order. An index with no node is absent from the record.
\<close>

definition groupedNodes :: "Node list \<Rightarrow> (nat \<rightharpoonup> Node list)" where
  "groupedNodes ns =
     foldl (\<lambda>acc node.
        (case acc (node_group node) of
           None \<Rightarrow> acc(node_group node \<mapsto> [] @ [node])
         | Some members \<Rightarrow> acc(node_group node \<mapsto> members @ [node])))
       Map.empty ns"

text \<open>\<^verbatim>\<open>groupedNodes[groupId] || []\<close>.\<close>

definition group_members :: "Node list \<Rightarrow> nat \<Rightarrow> Node list" where
  "group_members ns groupId = (case groupedNodes ns groupId of None \<Rightarrow> [] | Some members \<Rightarrow> members)"

definition getConnectionsInGroup :: "Node list \<Rightarrow> NameLink list \<Rightarrow> nat \<Rightarrow> NameLink list" where
  "getConnectionsInGroup ns conns groupId =
     (let groupNodeIds = new_Set (map node_id (group_members ns groupId))
      in filter (\<lambda>conn. source conn \<in> set groupNodeIds \<and> target conn \<in> set groupNodeIds) conns)"

definition getConnectionsForName :: "string \<Rightarrow> NameLink list \<Rightarrow> nat" where
  "getConnectionsForName nm groupConnections =
     length (filter (\<lambda>conn. source conn = nm \<or> target conn = nm) groupConnections)"

definition getIsolatedMembers :: "Node list \<Rightarrow> NameLink list \<Rightarrow> nat \<Rightarrow> Node list" where
  "getIsolatedMembers ns conns groupId =
     (let groupNodes = group_members ns groupId;
          groupConnections = getConnectionsInGroup ns conns groupId
      in filter (\<lambda>node. getConnectionsForName (node_id node) groupConnections = 0) groupNodes)"


section \<open>Properties of the connectivity closure\<close>

text \<open>Links read as undirected edges, and what is reachable from a seed along them.\<close>

definition link_edges :: "NameLink list \<Rightarrow> (string \<times> string) set" where
  "link_edges linkPairs = (\<lambda>l. (source l, target l)) ` set linkPairs"

definition reachable_from :: "string \<Rightarrow> NameLink list \<Rightarrow> string set" where
  "reachable_from seed linkPairs =
     {y. (seed, y) \<in> (link_edges linkPairs \<union> (link_edges linkPairs)\<inverse>)\<^sup>*}"

lemma reachable_step:
  assumes "l \<in> set ls" "x \<in> reachable_from seed ls" "x = source l \<or> x = target l"
  shows "source l \<in> reachable_from seed ls \<and> target l \<in> reachable_from seed ls"
proof -
  have e: "(source l, target l) \<in> link_edges ls"
    using assms(1) by (auto simp: link_edges_def)
  have "(seed, x) \<in> (link_edges ls \<union> (link_edges ls)\<inverse>)\<^sup>*"
    using assms(2) by (simp add: reachable_from_def)
  with e assms(3) show ?thesis
    unfolding reachable_from_def
    by (auto intro: rtrancl_into_rtrancl)
qed

lemma visit_link_sound:
  assumes "l \<in> set ls" "set c \<subseteq> reachable_from seed ls"
  shows "set (visit_link c l) \<subseteq> reachable_from seed ls"
  using assms reachable_step[of l ls _ seed]
  by (auto simp: visit_link_def set_add_def Let_def split: if_splits)

lemma foldl_visit_sound:
  assumes "set ks \<subseteq> set ls" "set c \<subseteq> reachable_from seed ls"
  shows "set (foldl visit_link c ks) \<subseteq> reachable_from seed ls"
  using assms
proof (induction ks arbitrary: c)
  case Nil
  then show ?case by simp
next
  case (Cons k ks)
  have "set (visit_link c k) \<subseteq> reachable_from seed ls"
    using Cons.prems by (intro visit_link_sound) auto
  then show ?case using Cons by simp
qed

lemma closure_loop_sound:
  "set c \<subseteq> reachable_from seed ls \<Longrightarrow> set (closure_loop ls c) \<subseteq> reachable_from seed ls"
proof (induction ls c rule: closure_loop.induct)
  case (1 ls c)
  have s: "set (scan_links ls c) \<subseteq> reachable_from seed ls"
    unfolding scan_links_def using "1.prems" by (intro foldl_visit_sound) auto
  show ?case
  proof (cases "length c \<noteq> length (scan_links ls c)")
    case True
    then show ?thesis
      using "1.IH"[OF refl True s] by (simp add: closure_loop.simps[of ls c])
  next
    case False
    then show ?thesis using s by (simp add: closure_loop.simps[of ls c])
  qed
qed

lemma closure_loop_fixed:
  "scan_links ls (closure_loop ls c) = closure_loop ls c \<and>
   (\<exists>ys. closure_loop ls c = c @ ys \<and> set ys \<subseteq> endpoints ls - set c)"
proof (induction ls c rule: closure_loop.induct)
  case (1 ls c)
  obtain ys where ys: "scan_links ls c = c @ ys" "set ys \<subseteq> endpoints ls - set c"
    using scan_links_grows by blast
  show ?case
  proof (cases "length c \<noteq> length (scan_links ls c)")
    case True
    from "1.IH"[OF refl True] obtain zs where
      f: "scan_links ls (closure_loop ls (scan_links ls c)) = closure_loop ls (scan_links ls c)"
      and zs: "closure_loop ls (scan_links ls c) = scan_links ls c @ zs"
        "set zs \<subseteq> endpoints ls - set (scan_links ls c)"
      by blast
    have eq: "closure_loop ls c = closure_loop ls (scan_links ls c)"
      using True by (simp add: closure_loop.simps[of ls c])
    have "closure_loop ls c = c @ (ys @ zs)" using eq zs ys by simp
    moreover have "set (ys @ zs) \<subseteq> endpoints ls - set c" using ys zs by auto
    ultimately show ?thesis using f eq by metis
  next
    case False
    then have "ys = []" using ys by simp
    then have "scan_links ls c = c" using ys by simp
    moreover have "closure_loop ls c = scan_links ls c"
      using False by (simp add: closure_loop.simps[of ls c])
    ultimately show ?thesis by simp
  qed
qed

lemma visit_link_fixed_closed:
  assumes "visit_link c l = c"
  shows "source l \<in> set c \<longleftrightarrow> target l \<in> set c"
  using assms by (auto simp: visit_link_def set_add_def Let_def split: if_splits)

lemma scan_links_fixed_closed:
  "scan_links ls c = c \<Longrightarrow> l \<in> set ls \<Longrightarrow> (source l \<in> set c \<longleftrightarrow> target l \<in> set c)"
proof (induction ls)
  case Nil
  then show ?case by simp
next
  case (Cons k ks)
  obtain ys where ys: "visit_link c k = c @ ys"
    using visit_link_grows by blast
  obtain zs where zs: "scan_links ks (c @ ys) = (c @ ys) @ zs"
    using scan_links_grows by blast
  have "scan_links (k # ks) c = c @ ys @ zs"
    using ys zs by (simp add: scan_links_def)
  with Cons.prems(1) have e: "ys = []" "zs = []" by auto
  then have vk: "visit_link c k = c" and sk: "scan_links ks c = c"
    using ys zs by auto
  show ?case
  proof (cases "l = k")
    case True
    then show ?thesis using visit_link_fixed_closed[OF vk] by simp
  next
    case False
    then show ?thesis using Cons.IH[OF sk] Cons.prems(2) by simp
  qed
qed

lemma closed_contains_reachable:
  assumes seed: "seed \<in> S"
    and closed: "\<And>l. l \<in> set ls \<Longrightarrow> (source l \<in> S \<longleftrightarrow> target l \<in> S)"
  shows "reachable_from seed ls \<subseteq> S"
proof
  fix y assume "y \<in> reachable_from seed ls"
  then have "(seed, y) \<in> (link_edges ls \<union> (link_edges ls)\<inverse>)\<^sup>*"
    by (simp add: reachable_from_def)
  then show "y \<in> S"
  proof (induction rule: rtrancl_induct)
    case base
    then show ?case by (rule seed)
  next
    case (step y z)
    then show ?case using closed by (auto simp: link_edges_def)
  qed
qed

lemma reachable_isolated:
  assumes "seed \<notin> endpoints ls"
  shows "reachable_from seed ls = {seed}"
proof -
  have "reachable_from seed ls \<subseteq> {seed}"
  proof (rule closed_contains_reachable)
    show "seed \<in> {seed}" by simp
  next
    fix l assume "l \<in> set ls"
    then show "source l \<in> {seed} \<longleftrightarrow> target l \<in> {seed}"
      using assms by (auto simp: endpoints_def)
  qed
  moreover have "seed \<in> reachable_from seed ls" by (simp add: reachable_from_def)
  ultimately show ?thesis by auto
qed

text \<open>
  C7: the closure from a seed is exactly the set of identifiers reachable from the seed
  along the links read as undirected edges, and a seed that occurs in no link yields the
  singleton of the seed.
\<close>

theorem findConnectedNames_reachable:
  "set (findConnectedNames seed linkPairs) = reachable_from seed linkPairs \<and>
   (seed \<notin> endpoints linkPairs \<longrightarrow> findConnectedNames seed linkPairs = [seed])"
proof -
  let ?r = "closure_loop linkPairs [seed]"
  obtain ys where fx: "scan_links linkPairs ?r = ?r"
    and ys: "?r = [seed] @ ys" "set ys \<subseteq> endpoints linkPairs - set [seed]"
    using closure_loop_fixed[of linkPairs "[seed]"] by blast
  have "seed \<in> reachable_from seed linkPairs" by (simp add: reachable_from_def)
  then have sub: "set ?r \<subseteq> reachable_from seed linkPairs"
    by (intro closure_loop_sound) simp
  have "seed \<in> set ?r" using ys(1) by (metis append_Cons list.set_intros(1))
  then have sup: "reachable_from seed linkPairs \<subseteq> set ?r"
    using scan_links_fixed_closed[OF fx] by (intro closed_contains_reachable) auto
  have eq: "set ?r = reachable_from seed linkPairs" using sub sup by blast
  have "?r = [seed]" if "seed \<notin> endpoints linkPairs"
  proof -
    have "set ?r = {seed}" using eq reachable_isolated[OF that] by simp
    then have "set ys \<subseteq> {seed}" using ys(1) by (metis set_append sup.cobounded2)
    with ys(2) have "\<And>y. y \<notin> set ys" by auto
    then have "ys = []" by (cases ys) auto
    then show ?thesis using ys(1) by simp
  qed
  with eq show ?thesis by (simp add: findConnectedNames_def)
qed

theorem findConnectedNames_reachable_witness:
  "set (findConnectedNames ''Carol'' [\<lparr>source = ''Alice'', target = ''Bob''\<rparr>])
     = reachable_from ''Carol'' [\<lparr>source = ''Alice'', target = ''Bob''\<rparr>] \<and>
   ''Carol'' \<notin> endpoints [\<lparr>source = ''Alice'', target = ''Bob''\<rparr>] \<and>
   findConnectedNames ''Carol'' [\<lparr>source = ''Alice'', target = ''Bob''\<rparr>] = [''Carol'']"
proof -
  have h: "''Carol'' \<notin> endpoints [\<lparr>source = ''Alice'', target = ''Bob''\<rparr>]"
    by (simp add: endpoints_def)
  show ?thesis
    using findConnectedNames_reachable[of "''Carol''" "[\<lparr>source = ''Alice'', target = ''Bob''\<rparr>]"] h
    by blast
qed

section \<open>Properties of the group merger\<close>

text \<open>
  A pair of groups is eligible when its combined size is at most \<open>maxSize\<close>; its score
  is the number of link occurrences with one endpoint in each of the two groups.
\<close>

definition combined_fits :: "string list list \<Rightarrow> int \<Rightarrow> nat \<Rightarrow> nat \<Rightarrow> bool" where
  "combined_fits groups maxSize i j \<longleftrightarrow>
     int (length (groups ! i)) + int (length (groups ! j)) \<le> maxSize"

definition inter_group_links :: "string list list \<Rightarrow> NameLink list \<Rightarrow> nat \<Rightarrow> nat \<Rightarrow> nat" where
  "inter_group_links groups linkPairs i j =
     length (filter (\<lambda>l. (source l \<in> set (groups ! i) \<and> target l \<in> set (groups ! j)) \<or>
                          (target l \<in> set (groups ! i) \<and> source l \<in> set (groups ! j)))
               linkPairs)"

lemma count_foldl_filter:
  "foldl (\<lambda>n x. if P x then n + 1 else n) (k::nat) xs = k + length (filter P xs)"
  by (induction xs arbitrary: k) auto

lemma countConnectionsBetweenGroups_eq:
  "countConnectionsBetweenGroups (groups ! i) (groups ! j) ls = inter_group_links groups ls i j"
  unfolding countConnectionsBetweenGroups_def inter_group_links_def
  by (simp add: count_foldl_filter)

lemma consider_pair_eq:
  "consider_pair groups ls m i b j =
     (if combined_fits groups m i j \<and> int (inter_group_links groups ls i j) > fst b
      then (int (inter_group_links groups ls i j), Some (i, j)) else b)"
  by (simp add: consider_pair_def combined_fits_def Let_def countConnectionsBetweenGroups_eq)

text \<open>The index pairs in the order in which the two nested loops visit them.\<close>

definition index_pairs :: "nat \<Rightarrow> (nat \<times> nat) list" where
  "index_pairs n = concat (map (\<lambda>i. map (Pair i) [i + 1 ..< n]) [0 ..< n])"

lemma nested_foldl_flat:
  "foldl (\<lambda>b i. foldl (f i) b (js i)) b is
   = foldl (\<lambda>b p. f (fst p) b (snd p)) b (concat (map (\<lambda>i. map (Pair i) (js i)) is))"
proof (induction "is" arbitrary: b)
  case Nil
  then show ?case by simp
next
  case (Cons i "is")
  have "foldl (f i) b (js i) = foldl (\<lambda>b p. f (fst p) b (snd p)) b (map (Pair i) (js i))"
    by (simp add: foldl_map)
  then show ?case using Cons.IH by simp
qed

lemma find_best_pair_flat:
  "find_best_pair groups ls m =
     foldl (\<lambda>b p. consider_pair groups ls m (fst p) b (snd p)) (- 1, None)
       (index_pairs (length groups))"
  unfolding find_best_pair_def index_pairs_def
  by (rule nested_foldl_flat)

lemma best_scan:
  fixes sc :: "'a \<Rightarrow> int" and el :: "'a \<Rightarrow> bool"
  defines "step \<equiv> (\<lambda>b p. if el p \<and> sc p > fst b then (sc p, Some p) else b)"
  shows "(foldl step (s0, None) ps = (s0, None) \<and> (\<forall>p \<in> set ps. el p \<longrightarrow> sc p \<le> s0)) \<or>
         (\<exists>pre p post. ps = pre @ p # post \<and> foldl step (s0, None) ps = (sc p, Some p) \<and>
            el p \<and> s0 < sc p \<and>
            (\<forall>q \<in> set pre. el q \<longrightarrow> sc q < sc p) \<and>
            (\<forall>q \<in> set post. el q \<longrightarrow> sc q \<le> sc p))"
proof (induction ps rule: rev_induct)
  case Nil
  then show ?case by simp
next
  case (snoc x xs)
  from snoc.IH show ?case
  proof (elim disjE conjE exE)
    assume a: "foldl step (s0, None) xs = (s0, None)" "\<forall>p\<in>set xs. el p \<longrightarrow> sc p \<le> s0"
    show ?thesis
    proof (cases "el x \<and> sc x > s0")
      case True
      have "foldl step (s0, None) (xs @ [x]) = (sc x, Some x)"
        using a(1) True by (simp add: step_def)
      moreover have "\<forall>q\<in>set xs. el q \<longrightarrow> sc q < sc x" using a(2) True by fastforce
      ultimately have "xs @ [x] = xs @ x # [] \<and> foldl step (s0, None) (xs @ [x]) = (sc x, Some x) \<and>
            el x \<and> s0 < sc x \<and> (\<forall>q \<in> set xs. el q \<longrightarrow> sc q < sc x) \<and>
            (\<forall>q \<in> set []. el q \<longrightarrow> sc q \<le> sc x)" using True by simp
      then show ?thesis by blast
    next
      case False
      have "foldl step (s0, None) (xs @ [x]) = (s0, None)"
        using a(1) False by (auto simp add: step_def)
      moreover have "\<forall>p\<in>set (xs @ [x]). el p \<longrightarrow> sc p \<le> s0" using a(2) False by auto
      ultimately show ?thesis by blast
    qed
  next
    fix pre p post
    assume b: "xs = pre @ p # post" "foldl step (s0, None) xs = (sc p, Some p)" "el p" "s0 < sc p"
      "\<forall>q\<in>set pre. el q \<longrightarrow> sc q < sc p" "\<forall>q\<in>set post. el q \<longrightarrow> sc q \<le> sc p"
    show ?thesis
    proof (cases "el x \<and> sc x > sc p")
      case True
      have "foldl step (s0, None) (xs @ [x]) = (sc x, Some x)"
        using b(2) True by (simp add: step_def)
      moreover have "\<forall>q\<in>set xs. el q \<longrightarrow> sc q < sc x" using b True by fastforce
      moreover have "s0 < sc x" using b(4) True by simp
      ultimately have "xs @ [x] = xs @ x # [] \<and> foldl step (s0, None) (xs @ [x]) = (sc x, Some x) \<and>
            el x \<and> s0 < sc x \<and> (\<forall>q \<in> set xs. el q \<longrightarrow> sc q < sc x) \<and>
            (\<forall>q \<in> set []. el q \<longrightarrow> sc q \<le> sc x)" using True by simp
      then show ?thesis by blast
    next
      case False
      have "foldl step (s0, None) (xs @ [x]) = (sc p, Some p)"
        using b(2) False by (auto simp add: step_def)
      moreover have "\<forall>q\<in>set (post @ [x]). el q \<longrightarrow> sc q \<le> sc p" using b(6) False by auto
      moreover have "xs @ [x] = pre @ p # (post @ [x])" using b(1) by simp
      ultimately show ?thesis using b(3,4,5) by blast
    qed
  qed
qed

lemma set_index_pairs: "set (index_pairs n) = {(i, j). i < j \<and> j < n}"
proof -
  have "(a, b) \<in> set (index_pairs n)" if "a < b" "b < n" for a b
  proof -
    have "a \<in> set [0..<n]" "(a, b) \<in> set (map (Pair a) [a + 1..<n])" using that by auto
    then have "\<exists>i \<in> set [0..<n]. (a, b) \<in> set (map (Pair i) [i + 1..<n])" by (rule bexI[rotated])
    then show ?thesis by (simp add: index_pairs_def)
  qed
  moreover have "a < b \<and> b < n" if "(a, b) \<in> set (index_pairs n)" for a b
    using that by (auto simp: index_pairs_def)
  ultimately show ?thesis by (intro set_eqI) (simp add: split_paired_all, blast)
qed

text \<open>Row-major order on index pairs.\<close>

definition pair_before :: "nat \<times> nat \<Rightarrow> nat \<times> nat \<Rightarrow> bool" where
  "pair_before p q \<longleftrightarrow> fst p < fst q \<or> (fst p = fst q \<and> snd p < snd q)"

lemma sorted_wrt_concat_map:
  assumes "sorted_wrt (<) (is :: nat list)"
    and "\<And>i. sorted_wrt R (f i)"
    and "\<And>i i' x y. i < i' \<Longrightarrow> x \<in> set (f i) \<Longrightarrow> y \<in> set (f i') \<Longrightarrow> R x y"
  shows "sorted_wrt R (concat (map f is))"
  using assms(1)
proof (induction "is")
  case Nil
  then show ?case by simp
next
  case (Cons i "is")
  then show ?case using assms(2,3) by (auto simp: sorted_wrt_append)
qed

lemma sorted_index_pairs: "sorted_wrt pair_before (index_pairs n)"
  unfolding index_pairs_def
proof (rule sorted_wrt_concat_map)
  show "sorted_wrt (<) [0..<n]" by simp
next
  fix i
  show "sorted_wrt pair_before (map (Pair i) [i + 1..<n])"
    by (simp add: sorted_wrt_map pair_before_def)
next
  fix i i' :: nat and x y
  assume "i < i'" "x \<in> set (map (Pair i) [i + 1..<n])" "y \<in> set (map (Pair i') [i' + 1..<n])"
  then show "pair_before x y" by (auto simp: pair_before_def)
qed


lemma find_best_pair_scan:
  "find_best_pair groups ls m =
     foldl (\<lambda>b p. if combined_fits groups m (fst p) (snd p) \<and>
                       int (inter_group_links groups ls (fst p) (snd p)) > fst b
                    then (int (inter_group_links groups ls (fst p) (snd p)), Some p) else b)
       (- 1, None) (index_pairs (length groups))"
  by (simp add: find_best_pair_flat consider_pair_eq cong: if_cong)

lemma find_best_pair_spec:
  "(snd (find_best_pair groups ls m) = None \<and>
      (\<forall>i j. i < j \<and> j < length groups \<longrightarrow> \<not> combined_fits groups m i j)) \<or>
   (\<exists>i j. snd (find_best_pair groups ls m) = Some (i, j) \<and>
      i < j \<and> j < length groups \<and> combined_fits groups m i j \<and>
      (\<forall>i' j'. i' < j' \<and> j' < length groups \<and> combined_fits groups m i' j' \<longrightarrow>
         inter_group_links groups ls i' j' < inter_group_links groups ls i j \<or>
         (inter_group_links groups ls i' j' = inter_group_links groups ls i j \<and>
          (i < i' \<or> (i = i' \<and> j \<le> j')))))"
proof -
  let ?el = "\<lambda>p. combined_fits groups m (fst p) (snd p)"
  let ?sc = "\<lambda>p. int (inter_group_links groups ls (fst p) (snd p))"
  let ?ps = "index_pairs (length groups)"
  note scan = best_scan[of ?el ?sc "- 1" ?ps, folded find_best_pair_scan]
  from scan show ?thesis
  proof (elim disjE conjE exE)
    assume a: "find_best_pair groups ls m = (- 1, None)" "\<forall>p\<in>set ?ps. ?el p \<longrightarrow> ?sc p \<le> - 1"
    have "\<not> combined_fits groups m i j" if "i < j" "j < length groups" for i j
    proof
      assume "combined_fits groups m i j"
      moreover have "(i, j) \<in> set ?ps" using that by (simp add: set_index_pairs)
      ultimately have "?sc (i, j) \<le> - 1" using a(2) by fastforce
      then show False by simp
    qed
    then show ?thesis using a(1) by simp
  next
    fix pre p post
    assume b: "?ps = pre @ p # post" "find_best_pair groups ls m = (?sc p, Some p)" "?el p"
      "\<forall>q\<in>set pre. ?el q \<longrightarrow> ?sc q < ?sc p" "\<forall>q\<in>set post. ?el q \<longrightarrow> ?sc q \<le> ?sc p"
    obtain i j where p: "p = (i, j)" by (cases p)
    have "p \<in> set ?ps" using b(1) by simp
    then have bounds: "i < j" "j < length groups" using p by (simp_all add: set_index_pairs)
    have srt: "sorted_wrt pair_before (pre @ p # post)"
      using sorted_index_pairs[of "length groups"] b(1) by simp
    have later: "pair_before p q" if "q \<in> set post" for q
      using srt that by (simp add: sorted_wrt_append)
    have best: "inter_group_links groups ls i' j' < inter_group_links groups ls i j \<or>
         (inter_group_links groups ls i' j' = inter_group_links groups ls i j \<and>
          (i < i' \<or> (i = i' \<and> j \<le> j')))"
      if q: "i' < j'" "j' < length groups" "combined_fits groups m i' j'" for i' j'
    proof -
      have "(i', j') \<in> set (pre @ p # post)"
        using q(1,2) b(1)[symmetric] by (simp add: set_index_pairs)
      then consider "(i', j') \<in> set pre" | "(i', j') = p" | "(i', j') \<in> set post" by auto
      then show ?thesis
      proof cases
        case 1
        then have "?sc (i', j') < ?sc p" using b(4) q(3) by fastforce
        then show ?thesis using p by simp
      next
        case 2
        then show ?thesis using p by simp
      next
        case 3
        then have "?sc (i', j') \<le> ?sc p" using b(5) q(3) by fastforce
        moreover have "pair_before p (i', j')" using later[OF 3] .
        ultimately show ?thesis using p by (auto simp: pair_before_def)
      qed
    qed
    have "snd (find_best_pair groups ls m) = Some (i, j)" using b(2) p by simp
    moreover have "combined_fits groups m i j" using b(3) p by simp
    ultimately show ?thesis using bounds best by blast
  qed
qed

lemma map_nth_upt: "b \<le> length xs \<Longrightarrow> map ((!) xs) [a..<b] = drop a (take b xs)"
  by (rule nth_equalityI) auto

lemma upt_split_at: "k < n \<Longrightarrow> [m..<n] = [m..<k] @ k # [Suc k..<n]" if "m \<le> k"
  using that upt_add_eq_append[of m k "n - k"] upt_conv_Cons[of k n] by simp

lemma others_of_pair:
  assumes "i < j" "j < n"
  shows "filter (\<lambda>k. k \<noteq> i \<and> k \<noteq> j) [0..<n] = [0..<i] @ [Suc i..<j] @ [Suc j..<n]"
proof -
  let ?P = "\<lambda>k. k \<noteq> i \<and> k \<noteq> j"
  have "[0..<n] = [0..<j] @ j # [Suc j..<n]" using assms by (intro upt_split_at) auto
  moreover have "[0..<j] = [0..<i] @ i # [Suc i..<j]" using assms by (intro upt_split_at) auto
  ultimately have e: "[0..<n] = [0..<i] @ i # [Suc i..<j] @ j # [Suc j..<n]" by simp
  have 1: "filter ?P [0..<i] = [0..<i]" using assms by (simp add: filter_id_conv)
  have 2: "filter ?P [Suc i..<j] = [Suc i..<j]" using assms by (simp add: filter_id_conv)
  have 3: "filter ?P [Suc j..<n] = [Suc j..<n]" using assms by (simp add: filter_id_conv)
  show ?thesis unfolding e using 1 2 3 by simp
qed

lemma splice_pair:
  assumes "i < j" "j < length xs"
  shows "splice1 i (splice1 j xs) = map ((!) xs) (filter (\<lambda>k. k \<noteq> i \<and> k \<noteq> j) [0..<length xs])"
proof -
  have "splice1 i (splice1 j xs) = take i xs @ drop (Suc i) (take j xs) @ drop (Suc j) xs"
    using assms by (simp add: splice1_def min_def)
  also have "\<dots> = map ((!) xs) ([0..<i] @ [Suc i..<j] @ [Suc j..<length xs])"
    using assms by (simp add: map_nth_upt)
  finally show ?thesis using others_of_pair[OF assms] by simp
qed


lemma merge_pair_others:
  assumes "i < j" "j < length groups"
  shows "merge_pair groups i j =
     map ((!) groups) (filter (\<lambda>k. k \<noteq> i \<and> k \<noteq> j) [0..<length groups]) @
     [groups ! i @ groups ! j]"
  using splice_pair[OF assms] by (simp add: merge_pair_def)

lemma merge_iteration_spec:
  "(merge_iteration groups ls m = None \<and>
      (\<forall>i j. i < j \<and> j < length groups \<longrightarrow> \<not> combined_fits groups m i j)) \<or>
   (\<exists>i j. merge_iteration groups ls m = Some (merge_pair groups i j) \<and>
      i < j \<and> j < length groups \<and> combined_fits groups m i j \<and>
      (\<forall>i' j'. i' < j' \<and> j' < length groups \<and> combined_fits groups m i' j' \<longrightarrow>
         inter_group_links groups ls i' j' < inter_group_links groups ls i j \<or>
         (inter_group_links groups ls i' j' = inter_group_links groups ls i j \<and>
          (i < i' \<or> (i = i' \<and> j \<le> j')))))"
  using find_best_pair_spec[of groups ls m]
proof (elim disjE conjE exE)
  assume "snd (find_best_pair groups ls m) = None"
    "\<forall>i j. i < j \<and> j < length groups \<longrightarrow> \<not> combined_fits groups m i j"
  then show ?thesis by (simp add: merge_iteration_def)
next
  fix i j
  assume a: "snd (find_best_pair groups ls m) = Some (i, j)" "i < j" "j < length groups"
    "combined_fits groups m i j"
    "\<forall>i' j'. i' < j' \<and> j' < length groups \<and> combined_fits groups m i' j' \<longrightarrow>
         inter_group_links groups ls i' j' < inter_group_links groups ls i j \<or>
         (inter_group_links groups ls i' j' = inter_group_links groups ls i j \<and>
          (i < i' \<or> (i = i' \<and> j \<le> j')))"
  have "merge_iteration groups ls m = Some (merge_pair groups i j)"
    using a(1) by (simp add: merge_iteration_def)
  then show ?thesis using a(2-5) by blast
qed

lemma splice1_concat:
  assumes "k < length xs"
  shows "mset (concat (splice1 k xs)) + mset (xs ! k) = mset (concat xs)"
proof -
  have "concat xs = concat (take k xs @ xs ! k # drop (Suc k) xs)"
    using id_take_nth_drop[OF assms] by simp
  then show ?thesis by (simp add: splice1_def)
qed

lemma splice1_nth_before: "i < j \<Longrightarrow> j < length xs \<Longrightarrow> splice1 j xs ! i = xs ! i"
  by (simp add: splice1_def nth_append)

lemma merge_pair_mset:
  assumes "i < j" "j < length groups"
  shows "mset (concat (merge_pair groups i j)) = mset (concat groups)"
proof -
  have l: "i < length (splice1 j groups)" using assms by (simp add: splice1_def)
  have "mset (concat (splice1 i (splice1 j groups))) + mset (groups ! i) + mset (groups ! j)
        = mset (concat groups)"
    using splice1_concat[OF l] splice1_concat[OF assms(2)] splice1_nth_before[OF assms]
    by simp
  then show ?thesis by (simp add: merge_pair_def ac_simps)
qed

lemma merge_pair_members:
  assumes "i < j" "j < length groups" "g \<in> set (merge_pair groups i j)"
  shows "g \<in> set groups \<or> g = groups ! i @ groups ! j"
  using assms(3) unfolding merge_pair_others[OF assms(1,2)] by auto

lemma merge_iteration_cases:
  assumes "merge_iteration groups ls m = Some groups'"
  obtains i j where "i < j" "j < length groups" "combined_fits groups m i j"
    "groups' = merge_pair groups i j"
  using merge_iteration_spec[of groups ls m] assms by auto

lemma merge_loop_props:
  "length (merge_loop groups ls m t) \<le> length groups \<and>
   (\<forall>g \<in> set (merge_loop groups ls m t). g \<in> set groups \<or> int (length g) \<le> m) \<and>
   mset (concat (merge_loop groups ls m t)) = mset (concat groups)"
proof (induction groups ls m t rule: merge_loop.induct)
  case (1 groups ls m t)
  show ?case
  proof (cases "int (length groups) > t")
    case False
    then show ?thesis by (simp add: merge_loop.simps[of groups])
  next
    case True
    show ?thesis
    proof (cases "merge_iteration groups ls m")
      case None
      then show ?thesis using True by (simp add: merge_loop.simps[of groups])
    next
      case (Some groups')
      have eq: "merge_loop groups ls m t = merge_loop groups' ls m t"
        using True Some by (simp add: merge_loop.simps[of groups])
      note IH = "1.IH"[OF True Some]
      from Some obtain i j where ij: "i < j" "j < length groups" "combined_fits groups m i j"
        "groups' = merge_pair groups i j" by (rule merge_iteration_cases)
      have len: "Suc (length groups') = length groups"
        using Some by (rule length_merge_iteration)
      have mem: "g \<in> set groups \<or> int (length g) \<le> m" if "g \<in> set groups'" for g
      proof -
        from that have "g \<in> set groups \<or> g = groups ! i @ groups ! j"
          using merge_pair_members[OF ij(1,2)] ij(4) by simp
        moreover have "int (length (groups ! i @ groups ! j)) \<le> m"
          using ij(3) by (simp add: combined_fits_def)
        ultimately show ?thesis by auto
      qed
      have ms: "mset (concat groups') = mset (concat groups)"
        using merge_pair_mset[OF ij(1,2)] ij(4) by simp
      show ?thesis unfolding eq using IH len mem ms by auto
    qed
  qed
qed




text \<open>
  C5: in an iteration of the loop of \<open>mergeGroups\<close>, which runs while the number of
  groups exceeds \<open>targetGroupCount\<close>, either no pair \<open>i < j\<close> has a combined size of at
  most \<open>maxSize\<close> and the loop stops, or the pair chosen is such a pair whose number of
  links between the two groups is the highest, the first one in row-major order of
  \<open>(i, j)\<close> among the pairs that reach this number, and the list after the iteration is the
  groups at the other indices, in their order, followed by the concatenation of group \<open>i\<close>
  and group \<open>j\<close>.
\<close>

theorem mergeGroups_iteration_best_pair:
  assumes "int (length groups) > targetGroupCount"
  shows "merge_loop groups linkPairs maxSize targetGroupCount =
           (case merge_iteration groups linkPairs maxSize of
              None \<Rightarrow> groups
            | Some groups' \<Rightarrow> merge_loop groups' linkPairs maxSize targetGroupCount) \<and>
         ((merge_iteration groups linkPairs maxSize = None \<and>
            (\<forall>i j. i < j \<and> j < length groups \<longrightarrow> \<not> combined_fits groups maxSize i j)) \<or>
          (\<exists>i j. i < j \<and> j < length groups \<and> combined_fits groups maxSize i j \<and>
             (\<forall>i' j'. i' < j' \<and> j' < length groups \<and> combined_fits groups maxSize i' j' \<longrightarrow>
                inter_group_links groups linkPairs i' j' < inter_group_links groups linkPairs i j \<or>
                (inter_group_links groups linkPairs i' j' = inter_group_links groups linkPairs i j \<and>
                 (i < i' \<or> (i = i' \<and> j \<le> j')))) \<and>
             merge_iteration groups linkPairs maxSize =
               Some (map ((!) groups) (filter (\<lambda>k. k \<noteq> i \<and> k \<noteq> j) [0..<length groups]) @
                     [groups ! i @ groups ! j])))"
proof -
  have "merge_loop groups linkPairs maxSize targetGroupCount =
           (case merge_iteration groups linkPairs maxSize of
              None \<Rightarrow> groups
            | Some groups' \<Rightarrow> merge_loop groups' linkPairs maxSize targetGroupCount)"
    using assms by (simp add: merge_loop.simps[of groups])
  moreover from merge_iteration_spec[of groups linkPairs maxSize]
  have "(merge_iteration groups linkPairs maxSize = None \<and>
            (\<forall>i j. i < j \<and> j < length groups \<longrightarrow> \<not> combined_fits groups maxSize i j)) \<or>
          (\<exists>i j. i < j \<and> j < length groups \<and> combined_fits groups maxSize i j \<and>
             (\<forall>i' j'. i' < j' \<and> j' < length groups \<and> combined_fits groups maxSize i' j' \<longrightarrow>
                inter_group_links groups linkPairs i' j' < inter_group_links groups linkPairs i j \<or>
                (inter_group_links groups linkPairs i' j' = inter_group_links groups linkPairs i j \<and>
                 (i < i' \<or> (i = i' \<and> j \<le> j')))) \<and>
             merge_iteration groups linkPairs maxSize =
               Some (map ((!) groups) (filter (\<lambda>k. k \<noteq> i \<and> k \<noteq> j) [0..<length groups]) @
                     [groups ! i @ groups ! j]))"
  proof (elim disjE conjE exE)
    assume "merge_iteration groups linkPairs maxSize = None"
      "\<forall>i j. i < j \<and> j < length groups \<longrightarrow> \<not> combined_fits groups maxSize i j"
    then show ?thesis by blast
  next
    fix i j
    assume a: "merge_iteration groups linkPairs maxSize = Some (merge_pair groups i j)"
      "i < j" "j < length groups" "combined_fits groups maxSize i j"
      "\<forall>i' j'. i' < j' \<and> j' < length groups \<and> combined_fits groups maxSize i' j' \<longrightarrow>
         inter_group_links groups linkPairs i' j' < inter_group_links groups linkPairs i j \<or>
         (inter_group_links groups linkPairs i' j' = inter_group_links groups linkPairs i j \<and>
          (i < i' \<or> (i = i' \<and> j \<le> j')))"
    have "merge_iteration groups linkPairs maxSize =
               Some (map ((!) groups) (filter (\<lambda>k. k \<noteq> i \<and> k \<noteq> j) [0..<length groups]) @
                     [groups ! i @ groups ! j])"
      using a(1) merge_pair_others[OF a(2,3)] by simp
    then show ?thesis using a(2-5) by blast
  qed
  ultimately show ?thesis by (rule conjI)
qed

theorem mergeGroups_iteration_best_pair_witness:
  "int (length [[''A''], [''B''], [''C'']]) > 2 \<and>
   merge_loop [[''A''], [''B''], [''C'']] [\<lparr>source = ''C'', target = ''B''\<rparr>] 2 2
     = [[''A''], [''B'', ''C'']] \<and>
   merge_iteration [[''A''], [''B''], [''C'']] [\<lparr>source = ''C'', target = ''B''\<rparr>] 2
     = Some [[''A''], [''B'', ''C'']] \<and>
   combined_fits [[''A''], [''B''], [''C'']] 2 0 1 \<and>
   inter_group_links [[''A''], [''B''], [''C'']] [\<lparr>source = ''C'', target = ''B''\<rparr>] 0 1
     < inter_group_links [[''A''], [''B''], [''C'']] [\<lparr>source = ''C'', target = ''B''\<rparr>] 1 2"
proof -
  have h: "int (length [[''A''], [''B''], [''C'']]) > 2" by simp
  have e: "merge_iteration [[''A''], [''B''], [''C'']] [\<lparr>source = ''C'', target = ''B''\<rparr>] 2
     = Some [[''A''], [''B'', ''C'']]" by code_simp
  have l: "merge_loop [[''A''], [''B'', ''C'']] [\<lparr>source = ''C'', target = ''B''\<rparr>] 2 2
     = [[''A''], [''B'', ''C'']]" by code_simp
  have c: "combined_fits [[''A''], [''B''], [''C'']] 2 0 1" by (simp add: combined_fits_def)
  have s: "inter_group_links [[''A''], [''B''], [''C'']] [\<lparr>source = ''C'', target = ''B''\<rparr>] 0 1
     < inter_group_links [[''A''], [''B''], [''C'']] [\<lparr>source = ''C'', target = ''B''\<rparr>] 1 2"
    by (simp add: inter_group_links_def)
  from mergeGroups_iteration_best_pair[OF h, of "[\<lparr>source = ''C'', target = ''B''\<rparr>]" 2]
  have "merge_loop [[''A''], [''B''], [''C'']] [\<lparr>source = ''C'', target = ''B''\<rparr>] 2 2
     = [[''A''], [''B'', ''C'']]"
    unfolding e using l by simp
  then show ?thesis using h e c s by simp
qed

section \<open>Properties of the group builder\<close>

lemma set_add_props: "set (set_add x s) = insert x (set s)" "distinct s \<Longrightarrow> distinct (set_add x s)"
  by (auto simp: set_add_def)

lemma new_Set_aux:
  "set (foldl (\<lambda>s x. set_add x s) acc xs) = set acc \<union> set xs \<and>
   (distinct acc \<longrightarrow> distinct (foldl (\<lambda>s x. set_add x s) acc xs))"
  by (induction xs arbitrary: acc) (auto simp: set_add_props)

lemma set_new_Set: "set (new_Set xs) = set xs"
  using new_Set_aux[of "[]" xs] by (simp add: new_Set_def)

lemma distinct_new_Set: "distinct (new_Set xs)"
  using new_Set_aux[of "[]" xs] by (simp add: new_Set_def)

lemma set_delete_distinct: "distinct s \<Longrightarrow> distinct (set_delete x s)"
  by (simp add: set_delete_def)

lemma set_delete_absent: "x \<notin> set s \<Longrightarrow> set_delete x s = s"
  by (induction s) (auto simp: set_delete_def)

lemma set_delete_Cons:
  "set_delete x (a # s) = (if a \<noteq> x then a # set_delete x s else set_delete x s)"
  by (simp add: set_delete_def)

lemma set_delete_mset:
  "distinct s \<Longrightarrow> x \<in> set s \<Longrightarrow> add_mset x (mset (set_delete x s)) = mset s"
  by (induction s) (auto simp: set_delete_Cons set_delete_absent)

lemma pad_group_step:
  "pad_group g u m =
     (if int (length g) < m \<and> u \<noteq> [] then pad_group (g @ [hd u]) (set_delete (hd u) u) m
      else (g, u))"
  by (subst pad_group.simps) (simp add: Let_def)

lemma pad_group_mset:
  "distinct u \<Longrightarrow> pad_group g u m = (g', u') \<Longrightarrow>
   distinct u' \<and> mset g' + mset u' = mset g + mset u"
proof (induction g u m arbitrary: g' u' rule: pad_group.induct)
  case (1 g u m)
  show ?case
  proof (cases "int (length g) < m \<and> u \<noteq> []")
    case True
    then have c: "int (length g) < m \<and> 0 < length u" by simp
    have d: "distinct (set_delete (hd u) u)" using "1.prems"(1) by (rule set_delete_distinct)
    have e: "pad_group (g @ [hd u]) (set_delete (hd u) u) m = (g', u')"
      using "1.prems"(2) True by (subst (asm) pad_group_step) simp
    have "add_mset (hd u) (mset (set_delete (hd u) u)) = mset u"
      using "1.prems"(1) True by (intro set_delete_mset) auto
    then show ?thesis using "1.IH"[OF c refl d e] by (metis add_mset_add_single mset_append union_assoc union_commute union_mset_add_mset_left mset.simps)
  next
    case False
    then have "pad_group g u m = (g, u)" by (subst pad_group_step) auto
    then show ?thesis using "1.prems" by simp
  qed
qed


lemma pad_group_size:
  "int (length g) \<le> mx \<Longrightarrow> m \<le> mx \<Longrightarrow> int (length (fst (pad_group g u m))) \<le> mx"
proof (induction g u m rule: pad_group.induct)
  case (1 g u m)
  show ?case
  proof (cases "int (length g) < m \<and> u \<noteq> []")
    case True
    then have c: "int (length g) < m \<and> 0 < length u" by simp
    have "int (length (g @ [hd u])) \<le> mx" using True "1.prems" by simp
    from "1.IH"[OF c refl this "1.prems"(2)] show ?thesis
      using True by (subst pad_group_step) simp
  next
    case False
    then have "pad_group g u m = (g, u)" by (subst pad_group_step) auto
    then show ?thesis using "1.prems" by simp
  qed
qed

lemma start_group_mset:
  assumes "u \<noteq> []" "distinct u" "start_group g u = (g1, u1)"
  shows "distinct u1 \<and> mset g1 + mset u1 = mset g + mset u"
proof (cases "g = []")
  case True
  then have e: "g1 = [hd u]" "u1 = set_delete (hd u) u"
    using assms(3) by (simp_all add: start_group_def Let_def)
  have "add_mset (hd u) (mset (set_delete (hd u) u)) = mset u"
    using assms(1,2) by (intro set_delete_mset) auto
  then show ?thesis using e True assms(2) by (simp add: set_delete_distinct)
next
  case False
  then show ?thesis using assms by (simp add: start_group_def)
qed

lemma start_group_size:
  assumes "start_group g u = (g1, u1)" "int (length g) \<le> mx" "1 \<le> mx"
  shows "int (length g1) \<le> mx"
  using assms by (auto simp: start_group_def Let_def split: if_splits)

lemma build_loop_step:
  assumes "u \<noteq> []" "start_group g u = (g1, u1)"
  shows "build_loop ls mn mx u gs g =
     (if connected_to_group g1 u1 ls = [] \<or> mx \<le> int (length g1) then
        build_loop ls mn mx (snd (pad_group g1 u1 mn)) (gs @ [fst (pad_group g1 u1 mn)]) []
      else build_loop ls mn mx (set_delete (hd (connected_to_group g1 u1 ls)) u1) gs
             (g1 @ [hd (connected_to_group g1 u1 ls)]))"
  using assms by (subst build_loop.simps) (simp add: Let_def split: prod.splits)

lemma build_loop_done: "build_loop ls mn mx [] gs g = (gs, g, [])"
  by (subst build_loop.simps) simp

lemma build_loop_mset:
  "distinct u \<Longrightarrow> build_loop ls mn mx u gs g = (gs', g', u') \<Longrightarrow>
   u' = [] \<and> mset (concat gs') + mset g' = mset (concat gs) + mset g + mset u"
proof (induction ls mn mx u gs g arbitrary: gs' g' u' rule: build_loop.induct)
  case (1 ls mn mx u gs g)
  show ?case
  proof (cases "u = []")
    case True
    then show ?thesis using "1.prems"(2) by (simp add: build_loop_done)
  next
    case False
    then have pos: "0 < length u" by simp
    obtain g1 u1 where sg: "start_group g u = (g1, u1)" by (cases "start_group g u")
    note s1 = start_group_mset[OF False "1.prems"(1) sg]
    let ?ctg = "connected_to_group g1 u1 ls"
    show ?thesis
    proof (cases "?ctg = [] \<or> mx \<le> int (length g1)")
      case True
      then have c: "length ?ctg = 0 \<or> mx \<le> int (length g1)" by simp
      obtain g2 u2 where pg: "pad_group g1 u1 mn = (g2, u2)" by (cases "pad_group g1 u1 mn")
      have p: "distinct u2 \<and> mset g2 + mset u2 = mset g1 + mset u1"
        using pad_group_mset[OF _ pg] s1 by simp
      have e: "build_loop ls mn mx u2 (gs @ [g2]) [] = (gs', g', u')"
        using "1.prems"(2) True pg by (simp add: build_loop_step[OF False sg])
      have "u' = [] \<and> mset (concat gs') + mset g' = mset (concat (gs @ [g2])) + mset [] + mset u2"
        using "1.IH"(1)[OF pos sg[symmetric] refl c pg[symmetric] _ e] p by simp
      then show ?thesis using p s1 by (simp add: ac_simps)
    next
      case False
      then have c: "\<not> (length ?ctg = 0 \<or> mx \<le> int (length g1))" by simp
      let ?n = "hd ?ctg"
      have "?n \<in> set u1" using False connected_to_group_subset[of g1 u1 ls] by (meson hd_in_set subsetD)
      then have m: "add_mset ?n (mset (set_delete ?n u1)) = mset u1"
        using s1 by (intro set_delete_mset) auto
      have d: "distinct (set_delete ?n u1)" using s1 by (simp add: set_delete_distinct)
      have e: "build_loop ls mn mx (set_delete ?n u1) gs (g1 @ [?n]) = (gs', g', u')"
        using "1.prems"(2) False by (simp add: build_loop_step[OF \<open>u \<noteq> []\<close> sg])
      have ih: "u' = [] \<and> mset (concat gs') + mset g'
            = mset (concat gs) + (mset (g1 @ [?n]) + mset (set_delete ?n u1))"
        using "1.IH"(2)[OF pos sg[symmetric] refl c refl d e] by (simp only: add.assoc)
      have eq: "mset (g1 @ [?n]) + mset (set_delete ?n u1) = mset g1 + mset u1"
        using m by (metis add_mset_add_single mset.simps(1,2) mset_append union_assoc union_commute union_mset_add_mset_left)
      show ?thesis using ih s1 unfolding eq by (simp add: ac_simps)
    qed
  qed
qed


lemma build_loop_size:
  "1 \<le> mx \<Longrightarrow> mn \<le> mx \<Longrightarrow> \<forall>x \<in> set gs. int (length x) \<le> mx \<Longrightarrow>
   int (length g) \<le> mx \<Longrightarrow> build_loop ls mn mx u gs g = (gs', g', u') \<Longrightarrow>
   (\<forall>x \<in> set gs'. int (length x) \<le> mx) \<and> int (length g') \<le> mx"
proof (induction ls mn mx u gs g arbitrary: gs' g' u' rule: build_loop.induct)
  case (1 ls mn mx u gs g)
  show ?case
  proof (cases "u = []")
    case True
    then show ?thesis using "1.prems" by (simp add: build_loop_done)
  next
    case False
    then have pos: "0 < length u" by simp
    obtain g1 u1 where sg: "start_group g u = (g1, u1)" by (cases "start_group g u")
    have s1: "int (length g1) \<le> mx"
      using start_group_size[OF sg "1.prems"(4,1)] .
    let ?ctg = "connected_to_group g1 u1 ls"
    show ?thesis
    proof (cases "?ctg = [] \<or> mx \<le> int (length g1)")
      case True
      then have c: "length ?ctg = 0 \<or> mx \<le> int (length g1)" by simp
      obtain g2 u2 where pg: "pad_group g1 u1 mn = (g2, u2)" by (cases "pad_group g1 u1 mn")
      have "int (length g2) \<le> mx"
        using pad_group_size[OF s1 "1.prems"(2), of u1] pg by simp
      then have a: "\<forall>x \<in> set (gs @ [g2]). int (length x) \<le> mx"
        using "1.prems"(3) by simp
      have b: "int (length ([] :: string list)) \<le> mx" using "1.prems"(1) by simp
      have e: "build_loop ls mn mx u2 (gs @ [g2]) [] = (gs', g', u')"
        using "1.prems"(5) True pg by (simp add: build_loop_step[OF False sg])
      show ?thesis
        using "1.IH"(1)[OF pos sg[symmetric] refl c pg[symmetric] "1.prems"(1,2) a b e] .
    next
      case False
      then have c: "\<not> (length ?ctg = 0 \<or> mx \<le> int (length g1))" by simp
      let ?n = "hd ?ctg"
      have b: "int (length (g1 @ [?n])) \<le> mx" using False by simp
      have e: "build_loop ls mn mx (set_delete ?n u1) gs (g1 @ [?n]) = (gs', g', u')"
        using "1.prems"(5) False by (simp add: build_loop_step[OF \<open>u \<noteq> []\<close> sg])
      show ?thesis
        using "1.IH"(2)[OF pos sg[symmetric] refl c refl "1.prems"(1,2,3) b e] .
    qed
  qed
qed

lemma pad_group_empty: "pad_group g [] m = (g, [])"
  by (subst pad_group_step) simp

lemma createConnectedGroups_unfold:
  assumes "build_loop ls mn mx (new_Set uniqueNames) [] [] = (gs, g, u)"
  shows "u = [] \<and> createConnectedGroups uniqueNames pm ls mn mx = (if g = [] then gs else gs @ [g])"
proof -
  have "u = []"
    using build_loop_mset[OF distinct_new_Set assms] by simp
  then show ?thesis using assms by (simp add: createConnectedGroups_def pad_group_empty)
qed

lemma createConnectedGroups_mset:
  "mset (concat (createConnectedGroups uniqueNames pm ls mn mx)) = mset (new_Set uniqueNames)"
proof -
  obtain gs g u where b: "build_loop ls mn mx (new_Set uniqueNames) [] [] = (gs, g, u)"
    by (cases "build_loop ls mn mx (new_Set uniqueNames) [] []")
  show ?thesis
    using createConnectedGroups_unfold[OF b, of pm] build_loop_mset[OF distinct_new_Set b]
    by (cases "g = []") simp_all
qed

lemma createConnectedGroups_size:
  assumes "1 \<le> mx" "mn \<le> mx"
  shows "\<forall>g \<in> set (createConnectedGroups uniqueNames pm ls mn mx). int (length g) \<le> mx"
proof -
  obtain gs g u where b: "build_loop ls mn mx (new_Set uniqueNames) [] [] = (gs, g, u)"
    by (cases "build_loop ls mn mx (new_Set uniqueNames) [] []")
  have "(\<forall>x \<in> set gs. int (length x) \<le> mx) \<and> int (length g) \<le> mx"
    using build_loop_size[OF assms _ _ b] assms(1) by simp
  then show ?thesis using createConnectedGroups_unfold[OF b, of pm] by simp
qed

lemma grouping_mset:
  "mset (concat (grouping uniqueNames pm ls mn mx t)) = mset (new_Set uniqueNames)"
  using merge_loop_props[of "createConnectedGroups uniqueNames pm ls mn mx" ls mx t]
  by (simp add: grouping_def mergeGroups_def createConnectedGroups_mset Let_def)

lemma distinct_concat_unique_index:
  assumes "distinct (concat xss)" "i < length xss" "j < length xss"
    "x \<in> set (xss ! i)" "x \<in> set (xss ! j)"
  shows "i = j"
  using assms
proof (induction xss arbitrary: i j)
  case Nil
  then show ?case by simp
next
  case (Cons xs xss)
  have in_union: "x \<in> \<Union> (set ` set xss)" if "k < length xss" "x \<in> set (xss ! k)" for k
    using that nth_mem by blast
  have disj: "set xs \<inter> \<Union> (set ` set xss) = {}" and d: "distinct (concat xss)"
    using Cons.prems(1) by simp_all
  show ?case
  proof (cases i)
    case 0
    show ?thesis
    proof (cases j)
      case (Suc j')
      then have "x \<in> \<Union> (set ` set xss)" using Cons.prems(3,5) by (intro in_union[of j']) auto
      moreover have "x \<in> set xs" using 0 Cons.prems(4) by simp
      ultimately show ?thesis using disj by blast
    qed (simp add: 0)
  next
    case (Suc i')
    show ?thesis
    proof (cases j)
      case 0
      have "x \<in> \<Union> (set ` set xss)" using Suc Cons.prems(2,4) by (intro in_union[of i']) auto
      moreover have "x \<in> set xs" using 0 Cons.prems(5) by simp
      ultimately show ?thesis using disj by blast
    next
      case (Suc j')
      have "i' = j'"
        using Cons.IH[OF d, of i' j'] Cons.prems(2-5) Suc \<open>i = Suc i'\<close> by simp
      then show ?thesis using Suc \<open>i = Suc i'\<close> by simp
    qed
  qed
qed

text \<open>
  C1: the final group list, \<open>createConnectedGroups\<close> followed by \<open>mergeGroups\<close>,
  partitions the unique entity set: no identifier occurs twice in the groups, the
  identifiers in the groups are exactly the entity identifiers, and every entity
  identifier is in exactly one group. It holds for every input, so for every valid one.
\<close>

theorem grouping_partitions:
  "distinct (concat (grouping uniqueNames peopleMap linkPairs minSize maxSize targetGroupCount)) \<and>
   set (concat (grouping uniqueNames peopleMap linkPairs minSize maxSize targetGroupCount))
     = set uniqueNames \<and>
   (\<forall>x \<in> set uniqueNames.
      \<exists>!k. k < length (grouping uniqueNames peopleMap linkPairs minSize maxSize targetGroupCount) \<and>
           x \<in> set (grouping uniqueNames peopleMap linkPairs minSize maxSize targetGroupCount ! k))"
proof -
  let ?G = "grouping uniqueNames peopleMap linkPairs minSize maxSize targetGroupCount"
  have ms: "mset (concat ?G) = mset (new_Set uniqueNames)" by (rule grouping_mset)
  have d: "distinct (concat ?G)"
    using ms distinct_new_Set[of uniqueNames] by (metis mset_eq_imp_distinct_iff)
  have s: "set (concat ?G) = set uniqueNames"
    using ms set_new_Set[of uniqueNames] by (metis mset_eq_setD)
  have "\<exists>!k. k < length ?G \<and> x \<in> set (?G ! k)" if x: "x \<in> set uniqueNames" for x
  proof -
    from x s have "x \<in> set (concat ?G)" by simp
    then obtain g where "g \<in> set ?G" "x \<in> set g" by auto
    then obtain k where k: "k < length ?G" "x \<in> set (?G ! k)" by (metis in_set_conv_nth)
    show ?thesis
    proof (rule ex1I[of _ k])
      show "k < length ?G \<and> x \<in> set (?G ! k)" using k by simp
    next
      fix k' assume "k' < length ?G \<and> x \<in> set (?G ! k')"
      then show "k' = k" using distinct_concat_unique_index[OF d _ k(1) _ k(2)] by blast
    qed
  qed
  with d s show ?thesis by blast
qed

theorem grouping_partitions_witness:
  "''Carol'' \<in> set [''Alice'', ''Bob'', ''Carol''] \<and>
   distinct (concat (grouping [''Alice'', ''Bob'', ''Carol''] Map.empty
      [\<lparr>source = ''Alice'', target = ''Bob''\<rparr>] 2 3 1)) \<and>
   (\<exists>!k. k < length (grouping [''Alice'', ''Bob'', ''Carol''] Map.empty
              [\<lparr>source = ''Alice'', target = ''Bob''\<rparr>] 2 3 1) \<and>
         ''Carol'' \<in> set (grouping [''Alice'', ''Bob'', ''Carol''] Map.empty
              [\<lparr>source = ''Alice'', target = ''Bob''\<rparr>] 2 3 1 ! k))"
proof -
  have m: "''Carol'' \<in> set [''Alice'', ''Bob'', ''Carol'']" by simp
  from grouping_partitions[of "[''Alice'', ''Bob'', ''Carol'']" Map.empty
      "[\<lparr>source = ''Alice'', target = ''Bob''\<rparr>]" 2 3 1] m
  show ?thesis by blast
qed

text \<open>
  C9: with \<open>1 \<le> minSize \<le> maxSize\<close>, every group that \<open>createConnectedGroups\<close>
  returns has at most \<open>maxSize\<close> members.
\<close>

theorem createConnectedGroups_within_maxSize:
  assumes "1 \<le> minSize" "minSize \<le> maxSize"
  shows "\<forall>g \<in> set (createConnectedGroups uniqueNames peopleMap linkPairs minSize maxSize).
           int (length g) \<le> maxSize"
  using assms by (intro createConnectedGroups_size) auto

theorem createConnectedGroups_within_maxSize_witness:
  "(1::int) \<le> 2 \<and> (2::int) \<le> 3 \<and>
   [''Alice'', ''Bob''] \<in> set (createConnectedGroups [''Alice'', ''Bob'', ''Carol''] Map.empty
      [\<lparr>source = ''Alice'', target = ''Bob''\<rparr>] 2 3) \<and>
   int (length [''Alice'', ''Bob'']) \<le> 3"
proof -
  have h1: "(1::int) \<le> 2" and h2: "(2::int) \<le> 3" by simp_all
  have e: "createConnectedGroups [''Alice'', ''Bob'', ''Carol''] Map.empty
      [\<lparr>source = ''Alice'', target = ''Bob''\<rparr>] 2 3 = [[''Alice'', ''Bob''], [''Carol'']]"
    by code_simp
  show ?thesis
    using createConnectedGroups_within_maxSize[OF h1 h2, of "[''Alice'', ''Bob'', ''Carol'']"
        Map.empty "[\<lparr>source = ''Alice'', target = ''Bob''\<rparr>]"]
    unfolding e by simp
qed

section \<open>Properties of the analytics\<close>

lemma groupedNodes_fold:
  "(case foldl (\<lambda>acc node.
        (case acc (node_group node) of
           None \<Rightarrow> acc(node_group node \<mapsto> [] @ [node])
         | Some members \<Rightarrow> acc(node_group node \<mapsto> members @ [node]))) acc ns gid of
      None \<Rightarrow> [] | Some members \<Rightarrow> members)
   = (case acc gid of None \<Rightarrow> [] | Some members \<Rightarrow> members) @
     filter (\<lambda>n. node_group n = gid) ns"
  by (induction ns arbitrary: acc) (auto split: option.splits)

lemma group_members_filter: "group_members ns gid = filter (\<lambda>n. node_group n = gid) ns"
  using groupedNodes_fold[of Map.empty ns gid]
  by (simp add: group_members_def groupedNodes_def)

text \<open>The identifiers of the entities of a group.\<close>

definition group_ids :: "Node list \<Rightarrow> nat \<Rightarrow> string set" where
  "group_ids ns gid = set (map node_id (filter (\<lambda>n. node_group n = gid) ns))"

lemma getConnectionsInGroup_filter:
  "getConnectionsInGroup ns conns gid =
     filter (\<lambda>conn. source conn \<in> group_ids ns gid \<and> target conn \<in> group_ids ns gid) conns"
proof -
  have "set (new_Set (map node_id (group_members ns gid))) = group_ids ns gid"
    by (auto simp: set_new_Set group_members_filter group_ids_def)
  then show ?thesis by (simp add: getConnectionsInGroup_def Let_def)
qed

text \<open>
  The degree as the specification words it for a self-link: every endpoint of a link that
  is the entity counts, so a link from the entity to itself counts twice.
\<close>

definition degree_counting_endpoints :: "string \<Rightarrow> NameLink list \<Rightarrow> nat" where
  "degree_counting_endpoints nm conns =
     sum_list (map (\<lambda>conn. (if source conn = nm then 1 else 0) +
                            (if target conn = nm then 1 else 0)) conns)"

definition self_links :: "string \<Rightarrow> NameLink list \<Rightarrow> nat" where
  "self_links nm conns = length (filter (\<lambda>conn. source conn = nm \<and> target conn = nm) conns)"

lemma degree_endpoints_split:
  "getConnectionsForName nm conns + self_links nm conns = degree_counting_endpoints nm conns"
  by (induction conns)
     (auto simp: getConnectionsForName_def self_links_def degree_counting_endpoints_def)

text \<open>
  C2 as stated fails: for the single entity \<open>A\<close> in group 0 and the single link from
  \<open>A\<close> to \<open>A\<close>, the degree computed is 1, while counting both endpoints gives 2.
\<close>

theorem self_link_degree_counterexample:
  "getConnectionsForName ''A''
     (getConnectionsInGroup [\<lparr>node_id = ''A'', node_gender = ''F'', node_group = 0\<rparr>]
        [\<lparr>source = ''A'', target = ''A''\<rparr>] 0) = 1 \<and>
   degree_counting_endpoints ''A''
     (getConnectionsInGroup [\<lparr>node_id = ''A'', node_gender = ''F'', node_group = 0\<rparr>]
        [\<lparr>source = ''A'', target = ''A''\<rparr>] 0) = 2"
  by code_simp

text \<open>
  C2 amended: the degree of an entity within a group is the number of link occurrences
  with both endpoints in the group that have the entity as source or as target. Every
  such occurrence adds 1, a self-link too: the degree is the count of endpoints at the
  entity less one for each self-link.
\<close>

theorem degree_counts_touching_links:
  "getConnectionsForName nm (getConnectionsInGroup ns conns gid) =
     length (filter (\<lambda>conn. (source conn = nm \<or> target conn = nm) \<and>
                             source conn \<in> group_ids ns gid \<and> target conn \<in> group_ids ns gid)
               conns) \<and>
   getConnectionsForName nm (getConnectionsInGroup ns conns gid) =
     degree_counting_endpoints nm (getConnectionsInGroup ns conns gid) -
     self_links nm (getConnectionsInGroup ns conns gid)"
proof -
  have "getConnectionsForName nm (getConnectionsInGroup ns conns gid) =
     length (filter (\<lambda>conn. (source conn = nm \<or> target conn = nm) \<and>
                             source conn \<in> group_ids ns gid \<and> target conn \<in> group_ids ns gid)
               conns)"
    by (simp add: getConnectionsForName_def getConnectionsInGroup_filter conj_commute conj_left_commute)
  moreover have "getConnectionsForName nm (getConnectionsInGroup ns conns gid) =
     degree_counting_endpoints nm (getConnectionsInGroup ns conns gid) -
     self_links nm (getConnectionsInGroup ns conns gid)"
    using degree_endpoints_split[of nm "getConnectionsInGroup ns conns gid"] by simp
  ultimately show ?thesis by (rule conjI)
qed

text \<open>
  C10: an entity with a self-link among the links is in no group's list of isolated
  entities.
\<close>

theorem self_linked_never_isolated:
  assumes "conn \<in> set conns" "source conn = nm" "target conn = nm"
  shows "\<forall>node \<in> set (getIsolatedMembers ns conns gid). node_id node \<noteq> nm"
proof
  fix node assume n: "node \<in> set (getIsolatedMembers ns conns gid)"
  then have g: "node \<in> set (group_members ns gid)"
    and z: "getConnectionsForName (node_id node) (getConnectionsInGroup ns conns gid) = 0"
    by (simp_all add: getIsolatedMembers_def Let_def)
  show "node_id node \<noteq> nm"
  proof
    assume e: "node_id node = nm"
    have "nm \<in> group_ids ns gid"
      using g e by (auto simp: group_members_filter group_ids_def)
    then have "conn \<in> set (getConnectionsInGroup ns conns gid)"
      using assms by (simp add: getConnectionsInGroup_filter)
    then have "conn \<in> set (filter (\<lambda>c. source c = nm \<or> target c = nm)
                 (getConnectionsInGroup ns conns gid))"
      using assms(2) by simp
    then have "getConnectionsForName nm (getConnectionsInGroup ns conns gid) \<noteq> 0"
      unfolding getConnectionsForName_def by (metis length_0_conv empty_iff empty_set)
    then show False using z e by simp
  qed
qed

theorem self_linked_never_isolated_witness:
  "\<lparr>source = ''A'', target = ''A''\<rparr> \<in> set [\<lparr>source = ''A'', target = ''A''\<rparr>] \<and>
   source \<lparr>source = ''A'', target = ''A''\<rparr> = ''A'' \<and>
   target \<lparr>source = ''A'', target = ''A''\<rparr> = ''A'' \<and>
   getIsolatedMembers
     [\<lparr>node_id = ''A'', node_gender = ''F'', node_group = 0\<rparr>,
      \<lparr>node_id = ''B'', node_gender = ''M'', node_group = 0\<rparr>]
     [\<lparr>source = ''A'', target = ''A''\<rparr>] 0
     = [\<lparr>node_id = ''B'', node_gender = ''M'', node_group = 0\<rparr>] \<and>
   node_id \<lparr>node_id = ''B'', node_gender = ''M'', node_group = 0\<rparr> \<noteq> ''A''"
proof -
  have e: "getIsolatedMembers
     [\<lparr>node_id = ''A'', node_gender = ''F'', node_group = 0\<rparr>,
      \<lparr>node_id = ''B'', node_gender = ''M'', node_group = 0\<rparr>]
     [\<lparr>source = ''A'', target = ''A''\<rparr>] 0
     = [\<lparr>node_id = ''B'', node_gender = ''M'', node_group = 0\<rparr>]"
    by code_simp
  have "\<forall>node \<in> set (getIsolatedMembers
     [\<lparr>node_id = ''A'', node_gender = ''F'', node_group = 0\<rparr>,
      \<lparr>node_id = ''B'', node_gender = ''M'', node_group = 0\<rparr>]
     [\<lparr>source = ''A'', target = ''A''\<rparr>] 0). node_id node \<noteq> ''A''"
    by (rule self_linked_never_isolated[of "\<lparr>source = ''A'', target = ''A''\<rparr>"]) simp_all
  then show ?thesis unfolding e by simp
qed


section \<open>Scenario A\<close>

text \<open>
  The state before the run: three name lines, one link line, \<open>minSize = 2\<close>,
  \<open>maxSize = 3\<close>, \<open>targetGroupCount = 1\<close>.
\<close>

definition scenario_A :: AppState where
  "scenario_A =
     \<lparr>names = ''Alice,F'' @ [CHR 0x0A] @ ''Bob,M'' @ [CHR 0x0A] @ ''Carol,F'',
      links = ''Alice,Bob'',
      minGroupSize = 2, maxGroupSize = 3, maxGroups = 1,
      nodes = [], connections = [], error = []\<rparr>"

text \<open>
  C4: on scenario A the two grouping calls yield the single group of Alice, Bob and
  Carol, the run stores the three nodes in group 0 and the link, the only link inside
  the group is Alice-Bob, and the only isolated entity is Carol, of degree 0.
\<close>

theorem scenario_A_result:
  "grouping [''Alice'', ''Bob'', ''Carol''] peopleMap [\<lparr>source = ''Alice'', target = ''Bob''\<rparr>] 2 3 1
     = [[''Alice'', ''Bob'', ''Carol'']] \<and>
   processInput scenario_A = scenario_A
     \<lparr>nodes := [\<lparr>node_id = ''Alice'', node_gender = ''F'', node_group = 0\<rparr>,
                \<lparr>node_id = ''Bob'', node_gender = ''M'', node_group = 0\<rparr>,
                \<lparr>node_id = ''Carol'', node_gender = ''F'', node_group = 0\<rparr>],
      connections := [\<lparr>source = ''Alice'', target = ''Bob''\<rparr>],
      error := []\<rparr> \<and>
   getConnectionsInGroup (nodes (processInput scenario_A)) (connections (processInput scenario_A)) 0
     = [\<lparr>source = ''Alice'', target = ''Bob''\<rparr>] \<and>
   getIsolatedMembers (nodes (processInput scenario_A)) (connections (processInput scenario_A)) 0
     = [\<lparr>node_id = ''Carol'', node_gender = ''F'', node_group = 0\<rparr>] \<and>
   getConnectionsForName ''Carol''
     (getConnectionsInGroup (nodes (processInput scenario_A))
        (connections (processInput scenario_A)) 0) = 0"
proof -
  have g: "grouping [''Alice'', ''Bob'', ''Carol''] peopleMap
             [\<lparr>source = ''Alice'', target = ''Bob''\<rparr>] 2 3 1 = [[''Alice'', ''Bob'', ''Carol'']]"
    by code_simp
  have p: "processInput scenario_A = scenario_A
     \<lparr>nodes := [\<lparr>node_id = ''Alice'', node_gender = ''F'', node_group = 0\<rparr>,
                \<lparr>node_id = ''Bob'', node_gender = ''M'', node_group = 0\<rparr>,
                \<lparr>node_id = ''Carol'', node_gender = ''F'', node_group = 0\<rparr>],
      connections := [\<lparr>source = ''Alice'', target = ''Bob''\<rparr>],
      error := []\<rparr>"
    by code_simp
  have c: "getConnectionsInGroup
       [\<lparr>node_id = ''Alice'', node_gender = ''F'', node_group = 0\<rparr>,
        \<lparr>node_id = ''Bob'', node_gender = ''M'', node_group = 0\<rparr>,
        \<lparr>node_id = ''Carol'', node_gender = ''F'', node_group = 0\<rparr>]
       [\<lparr>source = ''Alice'', target = ''Bob''\<rparr>] 0 = [\<lparr>source = ''Alice'', target = ''Bob''\<rparr>]"
    by code_simp
  have i: "getIsolatedMembers
       [\<lparr>node_id = ''Alice'', node_gender = ''F'', node_group = 0\<rparr>,
        \<lparr>node_id = ''Bob'', node_gender = ''M'', node_group = 0\<rparr>,
        \<lparr>node_id = ''Carol'', node_gender = ''F'', node_group = 0\<rparr>]
       [\<lparr>source = ''Alice'', target = ''Bob''\<rparr>] 0
       = [\<lparr>node_id = ''Carol'', node_gender = ''F'', node_group = 0\<rparr>]"
    by code_simp
  have d: "getConnectionsForName ''Carol'' [\<lparr>source = ''Alice'', target = ''Bob''\<rparr>] = 0"
    by code_simp
  show ?thesis unfolding p using g c i d by simp
qed

section \<open>Properties of reading the names\<close>

text \<open>The position of the first occurrence of \<open>x\<close> in \<open>xs\<close>.\<close>

definition first_index :: "'a list \<Rightarrow> 'a \<Rightarrow> nat" where
  "first_index xs x = length (takeWhile (\<lambda>y. y \<noteq> x) xs)"

lemma first_index_less: "x \<in> set xs \<Longrightarrow> first_index xs x < length xs"
  by (induction xs) (auto simp: first_index_def)

lemma first_index_append: "x \<in> set xs \<Longrightarrow> first_index (xs @ ys) x = first_index xs x"
  by (induction xs) (auto simp: first_index_def)

lemma first_index_new: "x \<notin> set xs \<Longrightarrow> first_index (xs @ [x]) x = length xs"
  by (induction xs) (auto simp: first_index_def)

lemma new_Set_snoc: "new_Set (xs @ [x]) = set_add x (new_Set xs)"
  by (simp add: new_Set_def)

lemma new_Set_first_seen:
  "i < j \<Longrightarrow> j < length (new_Set xs) \<Longrightarrow>
   first_index xs (new_Set xs ! i) < first_index xs (new_Set xs ! j)"
proof (induction xs arbitrary: i j rule: rev_induct)
  case Nil
  then show ?case by (simp add: new_Set_def)
next
  case (snoc x xs)
  show ?case
  proof (cases "x \<in> set xs")
    case True
    then have e: "new_Set (xs @ [x]) = new_Set xs"
      by (simp add: new_Set_snoc set_add_def set_new_Set)
    have "new_Set xs ! i \<in> set xs" "new_Set xs ! j \<in> set xs"
      using snoc.prems e set_new_Set[of xs] nth_mem[of _ "new_Set xs"] by auto
    then show ?thesis using snoc.IH[of i j] snoc.prems e by (simp add: first_index_append)
  next
    case False
    then have e: "new_Set (xs @ [x]) = new_Set xs @ [x]"
      by (simp add: new_Set_snoc set_add_def set_new_Set)
    have i: "i < length (new_Set xs)" using snoc.prems e by simp
    then have mi: "new_Set xs ! i \<in> set xs"
      using set_new_Set[of xs] nth_mem[of i "new_Set xs"] by auto
    show ?thesis
    proof (cases "j < length (new_Set xs)")
      case True
      then have "new_Set xs ! j \<in> set xs"
        using set_new_Set[of xs] nth_mem[of j "new_Set xs"] by auto
      then show ?thesis
        using snoc.IH[OF snoc.prems(1) True] mi i True e
        by (simp add: first_index_append nth_append)
    next
      case False
      then have "j = length (new_Set xs)" using snoc.prems(2) e by simp
      then have "new_Set (xs @ [x]) ! j = x" using e by simp
      moreover have "new_Set (xs @ [x]) ! i = new_Set xs ! i" using e i by (simp add: nth_append)
      ultimately show ?thesis
        using first_index_less[OF mi] mi \<open>x \<notin> set xs\<close>
        by (simp add: first_index_append first_index_new)
    qed
  qed
qed

text \<open>The map after the persons have been stored in order.\<close>

lemma process_names_persons:
  "process_names lines pm = Inr (pm', nameList) \<Longrightarrow>
   \<exists>persons. map parse_person lines = map Inr persons \<and> nameList = map name persons \<and>
     pm' = foldl (\<lambda>m p. m(name p \<mapsto> p)) pm persons"
proof (induction lines arbitrary: pm pm' nameList)
  case Nil
  then show ?case by simp
next
  case (Cons line rest)
  from Cons.prems obtain person nl where
    p: "parse_person line = Inr person"
    and r: "process_names rest (pm(name person \<mapsto> person)) = Inr (pm', nl)"
    and n: "nameList = name person # nl"
    by (auto split: sum.splits)
  from Cons.IH[OF r] obtain persons where
    ps: "map parse_person rest = map Inr persons" "nl = map name persons"
      "pm' = foldl (\<lambda>m p. m(name p \<mapsto> p)) (pm(name person \<mapsto> person)) persons"
    by blast
  have "map parse_person (line # rest) = map Inr (person # persons) \<and>
        nameList = map name (person # persons) \<and>
        pm' = foldl (\<lambda>m p. m(name p \<mapsto> p)) pm (person # persons)"
    using p ps n by simp
  then show ?case by blast
qed

lemma stored_last:
  "foldl (\<lambda>m p. m(name p \<mapsto> p)) pm persons nm =
     (if nm \<in> set (map name persons) then Some (last (filter (\<lambda>p. name p = nm) persons))
      else pm nm)"
  by (induction persons rule: rev_induct) auto

text \<open>
  C8: when the name lines are all read, the unique-name list has every name once, in
  the order of the first occurrences, and the person stored under a name is the one
  of the last line with this name.
\<close>

theorem duplicate_names_collapse:
  assumes "process_names lines Map.empty = Inr (peopleMap, nameList)"
  shows "\<exists>persons. map parse_person lines = map Inr persons \<and> nameList = map name persons \<and>
     distinct (new_Set nameList) \<and> set (new_Set nameList) = set nameList \<and>
     (\<forall>i j. i < j \<and> j < length (new_Set nameList) \<longrightarrow>
        first_index nameList (new_Set nameList ! i) < first_index nameList (new_Set nameList ! j)) \<and>
     (\<forall>nm \<in> set nameList.
        peopleMap nm = Some (last (filter (\<lambda>p. name p = nm) persons)))"
proof -
  from process_names_persons[OF assms] obtain persons where
    ps: "map parse_person lines = map Inr persons" "nameList = map name persons"
      "peopleMap = foldl (\<lambda>m p. m(name p \<mapsto> p)) Map.empty persons"
    by blast
  have "\<forall>nm \<in> set nameList. peopleMap nm = Some (last (filter (\<lambda>p. name p = nm) persons))"
    using ps(2,3) stored_last[of Map.empty persons] by simp
  moreover have "\<forall>i j. i < j \<and> j < length (new_Set nameList) \<longrightarrow>
        first_index nameList (new_Set nameList ! i) < first_index nameList (new_Set nameList ! j)"
    using new_Set_first_seen by blast
  ultimately show ?thesis
    using ps(1,2) distinct_new_Set[of nameList] set_new_Set[of nameList] by blast
qed


theorem duplicate_names_collapse_witness:
  "process_names [''Ann,F'', ''Bob,F'', ''Ann,M''] Map.empty =
     Inr ([''Ann'' \<mapsto> \<lparr>name = ''Ann'', gender = ''F''\<rparr>,
           ''Bob'' \<mapsto> \<lparr>name = ''Bob'', gender = ''F''\<rparr>,
           ''Ann'' \<mapsto> \<lparr>name = ''Ann'', gender = ''M''\<rparr>],
          [''Ann'', ''Bob'', ''Ann'']) \<and>
   new_Set [''Ann'', ''Bob'', ''Ann''] = [''Ann'', ''Bob''] \<and>
   [''Ann'' \<mapsto> \<lparr>name = ''Ann'', gender = ''F''\<rparr>,
    ''Bob'' \<mapsto> \<lparr>name = ''Bob'', gender = ''F''\<rparr>,
    ''Ann'' \<mapsto> \<lparr>name = ''Ann'', gender = ''M''\<rparr>] ''Ann''
     = Some \<lparr>name = ''Ann'', gender = ''M''\<rparr>"
proof -
  have p: "parse_person ''Ann,F'' = Inr \<lparr>name = ''Ann'', gender = ''F''\<rparr>"
    "parse_person ''Bob,F'' = Inr \<lparr>name = ''Bob'', gender = ''F''\<rparr>"
    "parse_person ''Ann,M'' = Inr \<lparr>name = ''Ann'', gender = ''M''\<rparr>"
    by code_simp+
  have h: "process_names [''Ann,F'', ''Bob,F'', ''Ann,M''] Map.empty =
     Inr ([''Ann'' \<mapsto> \<lparr>name = ''Ann'', gender = ''F''\<rparr>,
           ''Bob'' \<mapsto> \<lparr>name = ''Bob'', gender = ''F''\<rparr>,
           ''Ann'' \<mapsto> \<lparr>name = ''Ann'', gender = ''M''\<rparr>],
          [''Ann'', ''Bob'', ''Ann''])"
    by (simp add: p)
  have u: "new_Set [''Ann'', ''Bob'', ''Ann''] = [''Ann'', ''Bob'']" by code_simp
  show ?thesis using duplicate_names_collapse[OF h] h u by simp
qed

section \<open>Validation in \<open>processInput\<close>\<close>

text \<open>The unique names when every name line is read without an error.\<close>

definition parsed_names :: "string \<Rightarrow> string list option" where
  "parsed_names txt =
     (case process_names (nonblank_lines txt) Map.empty of
        Inl e \<Rightarrow> None
      | Inr (peopleMap, nameList) \<Rightarrow> Some (new_Set nameList))"

text \<open>
  A link line references an unknown identifier: its first two fields are not empty and
  one of them is not among the unique names.
\<close>

definition references_unknown :: "string list \<Rightarrow> string \<Rightarrow> bool" where
  "references_unknown uniqueNames line =
     (let parts = map trim (split_on CHR '','' line)
      in length parts > 1 \<and> hd parts \<noteq> [] \<and> parts ! 1 \<noteq> [] \<and>
         (hd parts \<notin> set uniqueNames \<or> parts ! 1 \<notin> set uniqueNames))"

definition unknown_reference :: "AppState \<Rightarrow> bool" where
  "unknown_reference s =
     (case parsed_names (names s) of
        None \<Rightarrow> False
      | Some uniqueNames \<Rightarrow> list_ex (references_unknown uniqueNames) (nonblank_lines (links s)))"

definition malformed_link :: "AppState \<Rightarrow> bool" where
  "malformed_link s =
     (case parsed_names (names s) of
        None \<Rightarrow> False
      | Some uniqueNames \<Rightarrow>
          list_ex (\<lambda>line. parse_link uniqueNames line = Inl InvalidLinkFormat)
            (nonblank_lines (links s)))"

definition malformed_entity_record :: "AppState \<Rightarrow> bool" where
  "malformed_entity_record s = list_ex (\<lambda>line. isl (parse_person line)) (nonblank_lines (names s))"

definition invalid_configuration :: "AppState \<Rightarrow> bool" where
  "invalid_configuration s =
     (minGroupSize s \<le> 0 \<or> maxGroupSize s < minGroupSize s \<or> maxGroups s \<le> 0)"

lemma references_unknown_parse_link:
  "references_unknown U line \<longleftrightarrow> (\<exists>a b. parse_link U line = Inl (LinkNameNotInList a b))"
  by (auto simp: references_unknown_def parse_link_def Let_def split: option.splits if_splits)

lemma process_names_fails:
  "(\<exists>e. process_names lines pm = Inl e) \<longleftrightarrow> (\<exists>line \<in> set lines. isl (parse_person line))"
proof (induction lines arbitrary: pm)
  case Nil
  then show ?case by simp
next
  case (Cons line rest)
  show ?case
  proof (cases "parse_person line")
    case (Inl e)
    then show ?thesis by simp
  next
    case (Inr person)
    have "(\<exists>e. process_names (line # rest) pm = Inl e)
          \<longleftrightarrow> (\<exists>e. process_names rest (pm(name person \<mapsto> person)) = Inl e)"
      using Inr by (auto split: sum.splits)
    then show ?thesis using Cons.IH[of "pm(name person \<mapsto> person)"] Inr by simp
  qed
qed

lemma process_links_first_error:
  assumes "\<exists>line \<in> set lines. isl (parse_link U line)"
  shows "\<exists>e. process_links U lines = Inl e \<and> (\<exists>line \<in> set lines. parse_link U line = Inl e)"
  using assms
proof (induction lines)
  case Nil
  then show ?case by simp
next
  case (Cons line rest)
  show ?case
  proof (cases "parse_link U line")
    case (Inl e)
    then show ?thesis by simp
  next
    case (Inr l)
    then have "\<exists>line \<in> set rest. isl (parse_link U line)" using Cons.prems by auto
    from Cons.IH[OF this] obtain e where
      "process_links U rest = Inl e" "\<exists>line \<in> set rest. parse_link U line = Inl e" by blast
    then show ?thesis using Inr by auto
  qed
qed

lemma parsed_names_None:
  "parsed_names (names s) = None \<longleftrightarrow> malformed_entity_record s"
  using process_names_fails[of "nonblank_lines (names s)" Map.empty]
  by (auto simp: parsed_names_def malformed_entity_record_def list_ex_iff split: sum.splits)

lemma processInput_try_names_fail:
  assumes "parsed_names (names s) = None"
  shows "\<exists>e. processInput_try s = Inl e"
  using assms by (auto simp: parsed_names_def processInput_try_def split: sum.splits)

lemma processInput_try_config_fail:
  assumes "invalid_configuration s"
  shows "\<exists>e. processInput_try s = Inl e"
  using assms
  by (auto simp: invalid_configuration_def processInput_try_def Let_def split: sum.splits)

lemma processInput_try_links:
  assumes "parsed_names (names s) = Some U" "\<not> invalid_configuration s"
    "process_links U (nonblank_lines (links s)) = Inl e"
  shows "processInput_try s = Inl e"
  using assms
  by (auto simp: parsed_names_def invalid_configuration_def processInput_try_def Let_def
      split: sum.splits)

lemma processInput_fail: "processInput_try s = Inl e \<Longrightarrow> processInput s = s\<lparr>error := error_message e\<rparr>"
  by (simp add: processInput_def)


lemma parse_link_errors:
  "parse_link U line = Inl e \<Longrightarrow> e = InvalidLinkFormat \<or> (\<exists>a b. e = LinkNameNotInList a b)"
  by (auto simp: parse_link_def Let_def split: option.splits if_splits)

lemma unknown_reference_link_error:
  assumes "unknown_reference s" "\<not> invalid_configuration s"
  shows "\<exists>e U. processInput_try s = Inl e \<and> parsed_names (names s) = Some U \<and>
           (\<exists>line \<in> set (nonblank_lines (links s)). parse_link U line = Inl e)"
proof -
  from assms(1) obtain U where U: "parsed_names (names s) = Some U"
    and ex: "list_ex (references_unknown U) (nonblank_lines (links s))"
    by (auto simp: unknown_reference_def split: option.splits)
  from ex obtain line where "line \<in> set (nonblank_lines (links s))" "references_unknown U line"
    by (auto simp: list_ex_iff)
  then have "\<exists>line \<in> set (nonblank_lines (links s)). isl (parse_link U line)"
    using references_unknown_parse_link[of U line] by force
  from process_links_first_error[OF this] obtain e where
    e: "process_links U (nonblank_lines (links s)) = Inl e"
      "\<exists>line \<in> set (nonblank_lines (links s)). parse_link U line = Inl e" by blast
  have "processInput_try s = Inl e" using processInput_try_links[OF U assms(2) e(1)] .
  then show ?thesis using U e(2) by blast
qed

text \<open>Two inputs with the link Alice-Zed, where Zed is no entity.\<close>

definition unknown_link_zero_min :: AppState where
  "unknown_link_zero_min =
     \<lparr>names = ''Alice,F'', links = ''Alice,Zed'',
      minGroupSize = 0, maxGroupSize = 5, maxGroups = 3,
      nodes = [], connections = [], error = []\<rparr>"

definition unknown_link_after_malformed :: AppState where
  "unknown_link_after_malformed =
     \<lparr>names = ''Alice,F'', links = ''Alice'' @ [CHR 0x0A] @ ''Alice,Zed'',
      minGroupSize = 3, maxGroupSize = 5, maxGroups = 3,
      nodes = [], connections = [], error = []\<rparr>"

definition unknown_link_only :: AppState where
  "unknown_link_only =
     \<lparr>names = ''Alice,F'', links = ''Alice,Zed'',
      minGroupSize = 3, maxGroupSize = 5, maxGroups = 3,
      nodes = [], connections = [], error = []\<rparr>"

text \<open>
  C6 as stated fails: a link references the unknown identifier Zed, yet the error of the
  run is the one of the minimum group size in the first input, and the one of the link
  format in the second, where a line without a comma comes first.
\<close>

theorem unknown_reference_other_error_counterexample:
  "unknown_reference unknown_link_zero_min \<and>
   processInput_try unknown_link_zero_min = Inl MinGroupSizeNotPositive \<and>
   error (processInput unknown_link_zero_min) = ''Minimum group size must be greater than 0'' \<and>
   unknown_reference unknown_link_after_malformed \<and>
   processInput_try unknown_link_after_malformed = Inl InvalidLinkFormat \<and>
   error (processInput unknown_link_after_malformed) = ''Invalid link format''"
  by code_simp

text \<open>
  The error of the first element of a list that a check refuses, if there is one.
\<close>

definition first_error :: "('a \<Rightarrow> input_error + 'b) \<Rightarrow> 'a list \<Rightarrow> input_error option" where
  "first_error check xs =
     (case find (\<lambda>x. isl (check x)) xs of
        None \<Rightarrow> None
      | Some x \<Rightarrow> (case check x of Inl e \<Rightarrow> Some e | Inr y \<Rightarrow> None))"

text \<open>
  The validation error of a run, stated by the order of the checks: the error of the first
  check that fails, in the order entity records from top to bottom, \<open>minSize\<close>,
  \<open>maxSize\<close>, \<open>targetGroupCount\<close>, link lines from top to bottom; \<open>None\<close> when
  every check passes.
\<close>

definition first_validation_error :: "AppState \<Rightarrow> input_error option" where
  "first_validation_error s =
     (case first_error parse_person (nonblank_lines (names s)) of
        Some e \<Rightarrow> Some e
      | None \<Rightarrow>
          if minGroupSize s \<le> 0 then Some MinGroupSizeNotPositive
          else if maxGroupSize s < minGroupSize s then Some MaxGroupSizeBelowMin
          else if maxGroups s \<le> 0 then Some MaxGroupsNotPositive
          else (case parsed_names (names s) of
                  None \<Rightarrow> None
                | Some uniqueNames \<Rightarrow>
                    first_error (parse_link uniqueNames) (nonblank_lines (links s))))"

lemma first_error_Nil: "first_error check [] = None"
  by (simp add: first_error_def)

lemma first_error_Cons:
  "first_error check (x # xs) =
     (case check x of Inl e \<Rightarrow> Some e | Inr y \<Rightarrow> first_error check xs)"
  by (simp add: first_error_def split: sum.splits)

lemma process_names_first_error:
  "(case process_names lines pm of Inl e \<Rightarrow> Some e | Inr r \<Rightarrow> None)
   = first_error parse_person lines"
proof (induction lines arbitrary: pm)
  case Nil
  then show ?case by (simp add: first_error_Nil)
next
  case (Cons line rest)
  show ?case
  proof (cases "parse_person line")
    case (Inl e)
    then show ?thesis by (simp add: first_error_Cons)
  next
    case (Inr person)
    note IH = Cons.IH[of "pm(name person \<mapsto> person)"]
    show ?thesis
    proof (cases "process_names rest (pm(name person \<mapsto> person))")
      case (Inl e)
      have "first_error parse_person rest = Some e" using IH unfolding Inl by simp
      moreover have "process_names (line # rest) pm = Inl e"
        using Inl \<open>parse_person line = Inr person\<close> by simp
      ultimately show ?thesis
        using \<open>parse_person line = Inr person\<close> by (simp add: first_error_Cons)
    next
      case r: (Inr r)
      obtain pm' nl where pr: "r = (pm', nl)" by (cases r)
      have "first_error parse_person rest = None" using IH unfolding r by simp
      moreover have "process_names (line # rest) pm = Inr (pm', name person # nl)"
        using r pr \<open>parse_person line = Inr person\<close> by simp
      ultimately show ?thesis
        using \<open>parse_person line = Inr person\<close> by (simp add: first_error_Cons)
    qed
  qed
qed

lemma process_links_first:
  "(case process_links U lines of Inl e \<Rightarrow> Some e | Inr r \<Rightarrow> None)
   = first_error (parse_link U) lines"
proof (induction lines)
  case Nil
  then show ?case by (simp add: first_error_Nil)
next
  case (Cons line rest)
  then show ?case
    by (cases "parse_link U line") (simp_all add: first_error_Cons split: sum.splits)
qed

lemma first_error_mem:
  "first_error check xs = Some e \<Longrightarrow> \<exists>x \<in> set xs. check x = Inl e"
  by (induction xs) (auto simp: first_error_Nil first_error_Cons split: sum.splits)

lemma first_error_None:
  "first_error check xs = None \<longleftrightarrow> (\<forall>x \<in> set xs. \<not> isl (check x))"
  by (induction xs) (auto simp: first_error_Nil first_error_Cons split: sum.splits)

lemma parse_person_errors:
  "parse_person line = Inl e \<Longrightarrow> e = InvalidNameFormat \<or> (\<exists>nm. e = InvalidGender nm)"
  by (auto simp: parse_person_def Let_def split: if_splits)

text \<open>Every name of a group has its person in the map, so storing the nodes cannot fail.\<close>

lemma group_nodes_ok:
  "set g \<subseteq> dom pm \<Longrightarrow> \<exists>ns. group_nodes pm k g = Inr ns"
  by (induction g) (auto split: option.splits sum.splits)

lemma make_nodes_ok:
  "\<forall>g \<in> set gs. set g \<subseteq> dom pm \<Longrightarrow> \<exists>ns. make_nodes pm k gs = Inr ns"
proof (induction gs arbitrary: k)
  case Nil
  then show ?case by simp
next
  case (Cons g gs)
  obtain ns where "group_nodes pm k g = Inr ns" using group_nodes_ok[of g pm k] Cons.prems by auto
  moreover obtain ms where "make_nodes pm (Suc k) gs = Inr ms"
    using Cons.IH[of "Suc k"] Cons.prems by auto
  ultimately show ?case by simp
qed

lemma process_names_dom:
  assumes "process_names lines Map.empty = Inr (pm, nameList)"
  shows "set nameList \<subseteq> dom pm"
proof -
  from process_names_persons[OF assms] obtain persons where
    ps: "nameList = map name persons"
      "pm = foldl (\<lambda>m p. m(name p \<mapsto> p)) Map.empty persons" by blast
  show ?thesis
  proof
    fix nm assume "nm \<in> set nameList"
    then show "nm \<in> dom pm" using ps stored_last[of Map.empty persons nm] by auto
  qed
qed

lemma grouping_members:
  "g \<in> set (grouping U pm ls mn mx t) \<Longrightarrow> set g \<subseteq> set U"
proof -
  assume g: "g \<in> set (grouping U pm ls mn mx t)"
  have "set (concat (grouping U pm ls mn mx t)) = set U"
    using grouping_mset[of U pm ls mn mx t] set_new_Set[of U] by (metis mset_eq_setD)
  then show ?thesis using g by auto
qed

lemma processInput_try_characterised:
  "processInput_try s =
     (case first_validation_error s of
        Some e \<Rightarrow> Inl e
      | None \<Rightarrow> processInput_try s) \<and>
   (first_validation_error s = None \<longrightarrow> (\<exists>r. processInput_try s = Inr r))"
proof (cases "process_names (nonblank_lines (names s)) Map.empty")
  case (Inl e)
  then have "first_error parse_person (nonblank_lines (names s)) = Some e"
    using process_names_first_error[of "nonblank_lines (names s)" Map.empty] by simp
  then have "first_validation_error s = Some e" by (simp add: first_validation_error_def)
  moreover have "processInput_try s = Inl e" using Inl by (simp add: processInput_try_def)
  ultimately show ?thesis by simp
next
  case (Inr r)
  obtain pm nameList where r: "r = (pm, nameList)" by (cases r)
  have pn: "process_names (nonblank_lines (names s)) Map.empty = Inr (pm, nameList)"
    using Inr r by simp
  have fe: "first_error parse_person (nonblank_lines (names s)) = None"
    using process_names_first_error[of "nonblank_lines (names s)" Map.empty] pn by simp
  have U: "parsed_names (names s) = Some (new_Set nameList)"
    using pn by (simp add: parsed_names_def)
  show ?thesis
  proof (cases "invalid_configuration s")
    case True
    then show ?thesis
      using pn fe
      by (auto simp: invalid_configuration_def first_validation_error_def processInput_try_def
          Let_def)
  next
    case False
    then have cfg: "\<not> minGroupSize s \<le> 0" "\<not> maxGroupSize s < minGroupSize s"
      "\<not> maxGroups s \<le> 0"
      by (auto simp: invalid_configuration_def)
    have fv: "first_validation_error s
              = first_error (parse_link (new_Set nameList)) (nonblank_lines (links s))"
      using fe cfg U by (simp add: first_validation_error_def)
    show ?thesis
    proof (cases "process_links (new_Set nameList) (nonblank_lines (links s))")
      case (Inl e)
      then have "first_error (parse_link (new_Set nameList)) (nonblank_lines (links s)) = Some e"
        using process_links_first[of "new_Set nameList" "nonblank_lines (links s)"] by simp
      moreover have "processInput_try s = Inl e"
        using processInput_try_links[OF U False Inl] .
      ultimately show ?thesis using fv by simp
    next
      case (Inr linkPairs)
      let ?G = "grouping (new_Set nameList) pm linkPairs (minGroupSize s) (maxGroupSize s)
                  (maxGroups s)"
      have "\<forall>g \<in> set ?G. set g \<subseteq> dom pm"
        using grouping_members[of _ "new_Set nameList" pm linkPairs] process_names_dom[OF pn]
          set_new_Set[of nameList] by blast
      then obtain ns where ns: "make_nodes pm 0 ?G = Inr ns" using make_nodes_ok by blast
      have "processInput_try s = Inr (ns, linkPairs)"
        using pn cfg Inr ns by (simp add: processInput_try_def Let_def)
      moreover have "first_validation_error s = None"
        using fv process_links_first[of "new_Set nameList" "nonblank_lines (links s)"] Inr
        by simp
      ultimately show ?thesis by simp
    qed
  qed
qed


lemma first_validation_error_kind:
  assumes "first_validation_error s = Some e"
  shows "e \<noteq> GenderOfUndefined"
proof (cases "first_error parse_person (nonblank_lines (names s))")
  case (Some e')
  then have "e = e'" using assms by (simp add: first_validation_error_def)
  then show ?thesis using first_error_mem[OF Some] parse_person_errors by blast
next
  case None
  show ?thesis
  proof (cases "invalid_configuration s")
    case True
    then show ?thesis using assms None
      by (auto simp: first_validation_error_def invalid_configuration_def split: if_splits)
  next
    case False
    then obtain U where "first_error (parse_link U) (nonblank_lines (links s)) = Some e"
      using assms None
      by (auto simp: first_validation_error_def invalid_configuration_def
          split: if_splits option.splits)
    then show ?thesis using first_error_mem parse_link_errors by blast
  qed
qed

lemma first_validation_error_fails:
  assumes "first_validation_error s = Some e"
  shows "processInput_try s = Inl e"
  using processInput_try_characterised[of s] assms by simp

lemma fails_first_validation_error:
  assumes "processInput_try s = Inl e"
  shows "first_validation_error s = Some e"
proof (cases "first_validation_error s")
  case None
  then show ?thesis using processInput_try_characterised[of s] assms by auto
next
  case (Some e')
  then show ?thesis using first_validation_error_fails[OF Some] assms by simp
qed

text \<open>
  C6 amended: the run ends in the error of the first check that fails, in the order
  entity records, \<open>minSize\<close>, \<open>maxSize\<close>, \<open>targetGroupCount\<close>, link lines from top
  to bottom. The error is thrown before the grouping calls and is a validation error, and
  the run changes nothing of the state but the error message: no nodes and no links are
  stored. When every check passes the run stores nodes and links. A link that references
  an unknown identifier, an invalid configuration and a malformed entity record each make
  some check fail; with a valid configuration and no malformed link line, the error of a
  run with a link that references an unknown identifier is the one of such a link.
\<close>

theorem validation_fails_before_grouping:
  "(\<forall>e. first_validation_error s = Some e \<longrightarrow>
      processInput_try s = Inl e \<and> processInput s = s\<lparr>error := error_message e\<rparr> \<and>
      e \<noteq> GenderOfUndefined) \<and>
   (first_validation_error s = None \<longrightarrow>
      (\<exists>ns linkPairs. processInput_try s = Inr (ns, linkPairs))) \<and>
   (unknown_reference s \<or> invalid_configuration s \<or> malformed_entity_record s \<longrightarrow>
      first_validation_error s \<noteq> None) \<and>
   (unknown_reference s \<and> \<not> invalid_configuration s \<and> \<not> malformed_link s \<longrightarrow>
      (\<exists>a b. first_validation_error s = Some (LinkNameNotInList a b)))"
proof -
  have 1: "\<forall>e. first_validation_error s = Some e \<longrightarrow>
      processInput_try s = Inl e \<and> processInput s = s\<lparr>error := error_message e\<rparr> \<and>
      e \<noteq> GenderOfUndefined"
    using first_validation_error_fails processInput_fail first_validation_error_kind
    by blast
  have 2: "first_validation_error s = None \<longrightarrow>
      (\<exists>ns linkPairs. processInput_try s = Inr (ns, linkPairs))"
  proof
    assume "first_validation_error s = None"
    then obtain r where "processInput_try s = Inr r"
      using processInput_try_characterised[of s] by blast
    then show "\<exists>ns linkPairs. processInput_try s = Inr (ns, linkPairs)" by (cases r) auto
  qed
  have 3: "unknown_reference s \<or> invalid_configuration s \<or> malformed_entity_record s \<longrightarrow>
      first_validation_error s \<noteq> None"
  proof
    assume a: "unknown_reference s \<or> invalid_configuration s \<or> malformed_entity_record s"
    have "\<exists>e. processInput_try s = Inl e"
    proof (cases "invalid_configuration s")
      case True
      then show ?thesis by (rule processInput_try_config_fail)
    next
      case False
      from a False consider "unknown_reference s" | "malformed_entity_record s" by blast
      then show ?thesis
      proof cases
        case 1
        then show ?thesis using unknown_reference_link_error[OF 1 False] by blast
      next
        case 2
        then show ?thesis using processInput_try_names_fail parsed_names_None by blast
      qed
    qed
    then obtain e where "processInput_try s = Inl e" by blast
    then have "first_validation_error s = Some e" by (rule fails_first_validation_error)
    then show "first_validation_error s \<noteq> None" by simp
  qed
  have 4: "unknown_reference s \<and> \<not> invalid_configuration s \<and> \<not> malformed_link s \<longrightarrow>
      (\<exists>a b. first_validation_error s = Some (LinkNameNotInList a b))"
  proof
    assume b: "unknown_reference s \<and> \<not> invalid_configuration s \<and> \<not> malformed_link s"
    then obtain e U where e: "processInput_try s = Inl e" "parsed_names (names s) = Some U"
      "\<exists>line \<in> set (nonblank_lines (links s)). parse_link U line = Inl e"
      using unknown_reference_link_error[of s] by blast
    have "e \<noteq> InvalidLinkFormat"
      using b e(2,3) by (auto simp: malformed_link_def list_ex_iff)
    then have "\<exists>a b. e = LinkNameNotInList a b" using e(3) parse_link_errors by blast
    then show "\<exists>a b. first_validation_error s = Some (LinkNameNotInList a b)"
      using fails_first_validation_error[OF e(1)] by blast
  qed
  from 1 2 3 4 show ?thesis by (intro conjI)
qed

theorem validation_fails_before_grouping_witness:
  "unknown_reference unknown_link_only \<and> \<not> invalid_configuration unknown_link_only \<and>
   \<not> malformed_link unknown_link_only \<and>
   first_validation_error unknown_link_only = Some (LinkNameNotInList ''Alice'' ''Zed'') \<and>
   processInput_try unknown_link_only = Inl (LinkNameNotInList ''Alice'' ''Zed'') \<and>
   processInput unknown_link_only = unknown_link_only
     \<lparr>error := ''Link contains name not in names list: Alice or Zed''\<rparr>"
proof -
  have h: "unknown_reference unknown_link_only" "\<not> invalid_configuration unknown_link_only"
    "\<not> malformed_link unknown_link_only"
    by code_simp+
  have f: "first_validation_error unknown_link_only = Some (LinkNameNotInList ''Alice'' ''Zed'')"
    by code_simp
  from validation_fails_before_grouping[of unknown_link_only] f
  have "processInput_try unknown_link_only = Inl (LinkNameNotInList ''Alice'' ''Zed'') \<and>
     processInput unknown_link_only = unknown_link_only
       \<lparr>error := error_message (LinkNameNotInList ''Alice'' ''Zed'')\<rparr>"
    by blast
  then show ?thesis using h f by simp
qed

end
